theory Spec2Isabelle
  imports Main
begin

section \<open>Data model\<close>

text \<open>
  The program is one C file: \<^verbatim>\<open>main.c\<close> (producer, consumers, the CSV sink) followed by
  the shared buffer \<^verbatim>\<open>sbuffer.c\<close>. The headers \<^verbatim>\<open>config.h\<close> and \<^verbatim>\<open>sbuffer.h\<close> are not
  part of the sources. What follows embeds the buffer operations that run while the
  buffer is alive (\<^verbatim>\<open>sbuffer_init\<close>, \<^verbatim>\<open>sbuffer_insert\<close>, \<^verbatim>\<open>sbuffer_remove\<close>), the producer,
  the consumer and the sink; \<^verbatim>\<open>sbuffer_free\<close> and \<^verbatim>\<open>main\<close>, which end and frame that life,
  are left out.

  A \<^verbatim>\<open>sensor_data_t\<close> has the fields \<^verbatim>\<open>id\<close>, \<^verbatim>\<open>value\<close> and \<^verbatim>\<open>ts\<close>. Their C types are
  declared in \<^verbatim>\<open>config.h\<close>; the code only copies them and compares \<^verbatim>\<open>id\<close> with 0, so
  the identifier and the timestamp are integers and the value is a type parameter.
  The field names carry a suffix because \<open>id\<close> is a HOL constant and \<open>value\<close> and
  \<open>next\<close> are Isar keywords.
\<close>

type_synonym addr = nat

record 'v sensor_data =
  id_fld :: int
  value_fld :: 'v
  ts_fld :: int

text \<open>\<^verbatim>\<open>struct sbuffer_node { struct sbuffer_node *next; sensor_data_t data; }\<close>\<close>

record 'v sbuffer_node =
  next_ptr :: "addr option"
  data_fld :: "'v sensor_data"

text \<open>
  \<^verbatim>\<open>struct sbuffer { sbuffer_node_t *head; sbuffer_node_t *tail; mutex; condition; }\<close>.
  A pointer is \<open>None\<close> for \<^verbatim>\<open>NULL\<close> and \<open>Some a\<close> for the address \<open>a\<close>. The embedding
  runs one thread at a time, so the mutex and the condition variable carry no state:
  locking and unlocking are no-ops, and what \<^verbatim>\<open>pthread_cond_wait\<close> does is written out
  below.
\<close>

record sbuffer =
  head :: "addr option"
  tail :: "addr option"

text \<open>
  The store: the \<^verbatim>\<open>malloc\<close>ed buffer structs and the \<^verbatim>\<open>malloc\<close>ed nodes, each a partial
  map from addresses. \<^verbatim>\<open>free\<close> removes an address from its map; dereferencing an
  address that is not in the map is undefined behaviour in C and the outcome \<open>Fault\<close>
  here.
\<close>

record 'v heap =
  bufs :: "addr \<rightharpoonup> sbuffer"
  nodes :: "addr \<rightharpoonup> 'v sbuffer_node"

text \<open>
  Modelled from the spec: the three return codes of \<^verbatim>\<open>sbuffer.h\<close>, which is missing
  from the sources. The spec names them Failure, Success and EndOfStream; the code
  uses them only by name, so their numeric values are not needed.
\<close>

datatype sbuffer_status = SBUFFER_FAILURE | SBUFFER_SUCCESS | SBUFFER_NO_DATA

text \<open>
  A call either returns, or never returns because it waits on the condition variable
  with nobody to signal it (\<open>Blocked\<close>), or dereferences a dangling pointer (\<open>Fault\<close>).
\<close>

datatype 'a outcome = Blocked | Fault | Returned 'a

section \<open>The shared buffer\<close>

subsection \<open>\<^verbatim>\<open>sbuffer_init\<close>\<close>

text \<open>
  The arguments \<open>m\<close>, \<open>mutex_rc\<close> and \<open>cond_rc\<close> are what \<^verbatim>\<open>malloc\<close>,
  \<^verbatim>\<open>pthread_mutex_init\<close> and \<^verbatim>\<open>pthread_cond_init\<close> return. The result carries the value
  left in \<^verbatim>\<open>*buffer\<close>: on the two \<^verbatim>\<open>pthread\<close> failure paths the struct is freed and the
  pointer is left dangling.
\<close>

definition sbuffer_init ::
  "addr option \<Rightarrow> int \<Rightarrow> int \<Rightarrow> 'v heap \<Rightarrow> sbuffer_status \<times> addr option \<times> 'v heap" where
  "sbuffer_init m mutex_rc cond_rc h =
     (case m of
        None \<Rightarrow> (SBUFFER_FAILURE, None, h)
      | Some b \<Rightarrow>
          (let h1 = h\<lparr>bufs := (bufs h)(b \<mapsto> \<lparr>head = None, tail = None\<rparr>)\<rparr> in
           if mutex_rc \<noteq> 0 then (SBUFFER_FAILURE, Some b, h1\<lparr>bufs := (bufs h1)(b := None)\<rparr>)
           else if cond_rc \<noteq> 0 then (SBUFFER_FAILURE, Some b, h1\<lparr>bufs := (bufs h1)(b := None)\<rparr>)
           else (SBUFFER_SUCCESS, Some b, h1)))"

subsection \<open>\<^verbatim>\<open>sbuffer_insert\<close>\<close>

text \<open>
  \<open>buffer\<close> is the handle, \<open>d\<close> the record \<^verbatim>\<open>*data\<close>, and \<open>m\<close> what \<^verbatim>\<open>malloc\<close> returns
  for the new node. Both failure paths return the same code.
\<close>

definition sbuffer_insert ::
  "addr option \<Rightarrow> 'v sensor_data \<Rightarrow> addr option \<Rightarrow> 'v heap \<Rightarrow> (sbuffer_status \<times> 'v heap) outcome" where
  "sbuffer_insert buffer d m h =
     (case buffer of
        None \<Rightarrow> Returned (SBUFFER_FAILURE, h)
      | Some b \<Rightarrow>
          (case m of
             None \<Rightarrow> Returned (SBUFFER_FAILURE, h)
           | Some dummy \<Rightarrow>
               (let h1 = h\<lparr>nodes := (nodes h)(dummy \<mapsto> \<lparr>next_ptr = None, data_fld = d\<rparr>)\<rparr> in
                case bufs h1 b of
                  None \<Rightarrow> Fault
                | Some q \<Rightarrow>
                    (case tail q of
                       None \<Rightarrow>
                         Returned (SBUFFER_SUCCESS,
                           h1\<lparr>bufs := (bufs h1)(b \<mapsto> q\<lparr>head := Some dummy, tail := Some dummy\<rparr>)\<rparr>)
                     | Some t \<Rightarrow>
                         (case nodes h1 t of
                            None \<Rightarrow> Fault
                          | Some tn \<Rightarrow>
                              (let tn' = tn\<lparr>next_ptr := Some dummy\<rparr> in
                               Returned (SBUFFER_SUCCESS,
                                 h1\<lparr>nodes := (nodes h1)(t \<mapsto> tn'),
                                    bufs := (bufs h1)(b \<mapsto> q\<lparr>tail := next_ptr tn'\<rparr>)\<rparr>)))))))"

subsection \<open>\<^verbatim>\<open>sbuffer_remove\<close>\<close>

text \<open>
  \<^verbatim>\<open>pthread_cond_wait\<close> gives the mutex up, sleeps and takes the mutex again. With no
  other thread running, the store it returns with is the store it was called with.
\<close>

definition pthread_cond_wait :: "'v heap \<Rightarrow> 'v heap" where
  "pthread_cond_wait h = h"

text \<open>
  \<^verbatim>\<open>while (buffer->head == NULL) pthread_cond_wait(...)\<close>. The loop may run forever, so
  it is a partial function: \<open>None\<close> is the call that never leaves the loop. A dangling
  \<open>b\<close> leaves the loop here and faults in \<open>sbuffer_remove\<close>.
\<close>

partial_function (option) wait_while_empty :: "addr \<Rightarrow> 'v heap \<Rightarrow> 'v heap option" where
  "wait_while_empty b h =
     (case bufs h b of
        None \<Rightarrow> Some h
      | Some q \<Rightarrow>
          (if head q = None then wait_while_empty b (pthread_cond_wait h) else Some h))"

text \<open>
  \<open>d\<close> is the content of the caller's \<^verbatim>\<open>*data\<close> before the call; the result carries
  its content after the call. The message printed on the end-of-stream path goes to
  standard output and is not modelled.
\<close>

definition sbuffer_remove ::
  "addr option \<Rightarrow> 'v sensor_data \<Rightarrow> 'v heap \<Rightarrow>
     (sbuffer_status \<times> 'v sensor_data \<times> 'v heap) outcome" where
  "sbuffer_remove buffer d h =
     (case buffer of
        None \<Rightarrow> Returned (SBUFFER_FAILURE, d, h)
      | Some b \<Rightarrow>
          (case wait_while_empty b h of
             None \<Rightarrow> Blocked
           | Some h1 \<Rightarrow>
               (case bufs h1 b of
                  None \<Rightarrow> Fault
                | Some q \<Rightarrow>
                    (case head q of
                       None \<Rightarrow> Fault
                     | Some p \<Rightarrow>
                         (case nodes h1 p of
                            None \<Rightarrow> Fault
                          | Some n \<Rightarrow>
                              if id_fld (data_fld n) = 0 then Returned (SBUFFER_NO_DATA, d, h1)
                              else
                                (let q' = (if head q = tail q
                                           then q\<lparr>head := None, tail := None\<rparr>
                                           else q\<lparr>head := next_ptr n\<rparr>)
                                 in Returned (SBUFFER_SUCCESS, data_fld n,
                                      h1\<lparr>bufs := (bufs h1)(b \<mapsto> q'),
                                         nodes := (nodes h1)(p := None)\<rparr>)))))))"

text \<open>
  A number of consecutive \<open>sbuffer_remove\<close> calls of one thread on its local variable
  \<^verbatim>\<open>data\<close>: the status and the content of \<^verbatim>\<open>data\<close> after every call that returned, and
  how the last call ended.
\<close>

fun remove_calls ::
  "nat \<Rightarrow> addr option \<Rightarrow> 'v sensor_data \<Rightarrow> 'v heap \<Rightarrow>
     (sbuffer_status \<times> 'v sensor_data) list \<times> ('v sensor_data \<times> 'v heap) outcome" where
  "remove_calls 0 buffer d h = ([], Returned (d, h))"
| "remove_calls (Suc k) buffer d h =
     (case sbuffer_remove buffer d h of
        Blocked \<Rightarrow> ([], Blocked)
      | Fault \<Rightarrow> ([], Fault)
      | Returned (st, d', h') \<Rightarrow>
          (case remove_calls k buffer d' h' of (tr, fin) \<Rightarrow> ((st, d') # tr, fin)))"

text \<open>The records handed out by the calls that returned \<^verbatim>\<open>SBUFFER_SUCCESS\<close>.\<close>

definition removed :: "(sbuffer_status \<times> 'v sensor_data) list \<Rightarrow> 'v sensor_data list" where
  "removed tr = map snd (filter (\<lambda>c. fst c = SBUFFER_SUCCESS) tr)"

text \<open>
  A number of consecutive \<open>sbuffer_insert\<close> calls of one thread, each with its record
  and with what its \<^verbatim>\<open>malloc\<close> returns: the status of every call that returned, and how
  the last call ended.
\<close>

fun insert_calls ::
  "addr option \<Rightarrow> ('v sensor_data \<times> addr option) list \<Rightarrow> 'v heap \<Rightarrow>
     sbuffer_status list \<times> 'v heap outcome" where
  "insert_calls buffer [] h = ([], Returned h)"
| "insert_calls buffer (c # rest) h =
     (case sbuffer_insert buffer (fst c) (snd c) h of
        Blocked \<Rightarrow> ([], Blocked)
      | Fault \<Rightarrow> ([], Fault)
      | Returned (st, h') \<Rightarrow>
          (case insert_calls buffer rest h' of (sts, fin) \<Rightarrow> (st # sts, fin)))"

text \<open>
  One producer and one consumer. Every call works on the buffer under its mutex, so a
  run of the two threads is a sequence of whole calls: \<open>Insert r m\<close> is a call of
  \<open>sbuffer_insert\<close> with the record \<open>r\<close> whose \<^verbatim>\<open>malloc\<close> returns \<open>m\<close>, and \<open>Remove\<close> is a call
  of \<open>sbuffer_remove\<close> on the consumer's variable \<^verbatim>\<open>data\<close>.
\<close>

datatype 'v call = Insert "'v sensor_data" "addr option" | Remove

text \<open>
  The run of a sequence of calls: the records whose insert returned \<^verbatim>\<open>SBUFFER_SUCCESS\<close>,
  the records handed out by the removes that returned \<^verbatim>\<open>SBUFFER_SUCCESS\<close>, and how the
  run ended. A remove that meets the empty queue waits, and the run ends there.
\<close>

fun run_calls ::
  "addr option \<Rightarrow> 'v call list \<Rightarrow> 'v sensor_data \<Rightarrow> 'v heap \<Rightarrow>
     ('v sensor_data list \<times> 'v sensor_data list) \<times> ('v sensor_data \<times> 'v heap) outcome" where
  "run_calls buffer [] d h = (([], []), Returned (d, h))"
| "run_calls buffer (Insert r m # cl) d h =
     (case sbuffer_insert buffer r m h of
        Blocked \<Rightarrow> (([], []), Blocked)
      | Fault \<Rightarrow> (([], []), Fault)
      | Returned (st, h') \<Rightarrow>
          (case run_calls buffer cl d h' of
             ((ins, rem), fin) \<Rightarrow>
               ((if st = SBUFFER_SUCCESS then r # ins else ins, rem), fin)))"
| "run_calls buffer (Remove # cl) d h =
     (case sbuffer_remove buffer d h of
        Blocked \<Rightarrow> (([], []), Blocked)
      | Fault \<Rightarrow> (([], []), Fault)
      | Returned (st, d', h') \<Rightarrow>
          (case run_calls buffer cl d' h' of
             ((ins, rem), fin) \<Rightarrow>
               ((ins, if st = SBUFFER_SUCCESS then d' # rem else rem), fin)))"

text \<open>
  \<^verbatim>\<open>malloc\<close> returns \<^verbatim>\<open>NULL\<close> or an address that is not allocated when it is called (it
  may be one that an earlier remove has freed).
\<close>

fun fresh_mallocs ::
  "addr option \<Rightarrow> 'v call list \<Rightarrow> 'v sensor_data \<Rightarrow> 'v heap \<Rightarrow> bool" where
  "fresh_mallocs buffer [] d h = True"
| "fresh_mallocs buffer (Insert r m # cl) d h =
     ((case m of None \<Rightarrow> True | Some a \<Rightarrow> nodes h a = None) \<and>
      (case sbuffer_insert buffer r m h of
         Blocked \<Rightarrow> True
       | Fault \<Rightarrow> True
       | Returned (st, h') \<Rightarrow> fresh_mallocs buffer cl d h'))"
| "fresh_mallocs buffer (Remove # cl) d h =
     (case sbuffer_remove buffer d h of
        Blocked \<Rightarrow> True
      | Fault \<Rightarrow> True
      | Returned (st, d', h') \<Rightarrow> fresh_mallocs buffer cl d' h')"

text \<open>The records of the inserts whose \<^verbatim>\<open>malloc\<close> succeeded.\<close>

fun accepted :: "'v call list \<Rightarrow> 'v sensor_data list" where
  "accepted [] = []"
| "accepted (Insert r None # cl) = accepted cl"
| "accepted (Insert r (Some a) # cl) = r # accepted cl"
| "accepted (Remove # cl) = accepted cl"

text \<open>
  The nodes that a run of inserts appends to the queue: one for each insert whose
  \<^verbatim>\<open>malloc\<close> succeeded, at the address that \<^verbatim>\<open>malloc\<close> returned.
\<close>

fun enqueued :: "('v sensor_data \<times> addr option) list \<Rightarrow> (addr \<times> 'v sensor_data) list" where
  "enqueued [] = []"
| "enqueued ((r, None) # xs) = enqueued xs"
| "enqueued ((r, Some a) # xs) = (a, r) # enqueued xs"

text \<open>A record is data unless its \<^verbatim>\<open>id\<close> is 0, the end-of-stream marker.\<close>

definition is_data :: "'v sensor_data \<Rightarrow> bool" where
  "is_data r = (id_fld r \<noteq> 0)"

subsection \<open>The representation invariant\<close>

text \<open>
  \<open>chain ns p cs\<close>: following \<^verbatim>\<open>next\<close> from \<open>p\<close> visits exactly the addresses of \<open>cs\<close>,
  which hold the records of \<open>cs\<close>, and ends in \<^verbatim>\<open>NULL\<close>.
\<close>

primrec chain ::
  "(addr \<rightharpoonup> 'v sbuffer_node) \<Rightarrow> addr option \<Rightarrow> (addr \<times> 'v sensor_data) list \<Rightarrow> bool" where
  "chain ns p [] = (p = None)"
| "chain ns p (c # cs) =
     (p = Some (fst c) \<and>
      (case ns (fst c) of
         None \<Rightarrow> False
       | Some n \<Rightarrow> data_fld n = snd c \<and> chain ns (next_ptr n) cs))"

text \<open>
  \<open>queue_at h b cs\<close>: the buffer at \<open>b\<close> is a well-formed queue whose nodes, from head
  to tail, are \<open>cs\<close>: no node occurs twice and \<^verbatim>\<open>tail\<close> points to the last one.
\<close>

definition queue_at :: "'v heap \<Rightarrow> addr \<Rightarrow> (addr \<times> 'v sensor_data) list \<Rightarrow> bool" where
  "queue_at h b cs =
     (case bufs h b of
        None \<Rightarrow> False
      | Some q \<Rightarrow>
          chain (nodes h) (head q) cs \<and> distinct (map fst cs) \<and>
          tail q = (if cs = [] then None else Some (fst (last cs))))"

section \<open>The threads of \<^verbatim>\<open>main.c\<close>\<close>

definition NUM_THREADS :: nat where
  "NUM_THREADS = 3"

subsection \<open>\<^verbatim>\<open>log_sensor_data\<close>\<close>

text \<open>
  The output file is the list of the lines written to it, each line kept as the
  record whose three fields it prints; \<open>None\<close> is the \<^verbatim>\<open>NULL\<close> file pointer.
  \<open>fprintf_rc\<close> and \<open>fflush_rc\<close> are what \<^verbatim>\<open>fprintf\<close> and \<^verbatim>\<open>fflush\<close> return; a failed
  \<^verbatim>\<open>fprintf\<close> is taken to have written nothing.
\<close>

definition log_sensor_data ::
  "'v sensor_data list option \<Rightarrow> int \<Rightarrow> 'v \<Rightarrow> int \<Rightarrow> int \<Rightarrow> int \<Rightarrow>
     int \<times> 'v sensor_data list option" where
  "log_sensor_data output_file sensor_id sensor_value timestamp fprintf_rc fflush_rc =
     (case output_file of
        None \<Rightarrow> (- 1, None)
      | Some lines \<Rightarrow>
          if fprintf_rc < 0 then (- 1, Some lines)
          else
            (let f = Some (lines @
                       [\<lparr>id_fld = sensor_id, value_fld = sensor_value, ts_fld = timestamp\<rparr>])
             in if fflush_rc \<noteq> 0 then (- 1, f) else (0, f)))"

text \<open>
  The text of the file. The format string of line 46 is \<^verbatim>\<open>"%d,%.2f,%ld\n"\<close>: the id in
  decimal, a comma, the value as \<^verbatim>\<open>%.2f\<close> prints it, a comma, the timestamp in decimal and
  a newline. \<open>dec\<close> is the decimal text of an integer. What \<^verbatim>\<open>%.2f\<close> prints for a value
  (the value with two decimal places) is the C library's rendering of a floating-point
  number; it is the argument \<open>fmt2f\<close>.
\<close>

definition digit :: "nat \<Rightarrow> char" where
  "digit n = ''0123456789'' ! n"

fun dec_nat :: "nat \<Rightarrow> string" where
  "dec_nat n = (if n < 10 then [digit n] else dec_nat (n div 10) @ [digit (n mod 10)])"

declare dec_nat.simps [simp del]

definition dec :: "int \<Rightarrow> string" where
  "dec i = (if i < 0 then CHR ''-'' # dec_nat (nat (- i)) else dec_nat (nat i))"

definition csv_line :: "('v \<Rightarrow> string) \<Rightarrow> 'v sensor_data \<Rightarrow> string" where
  "csv_line fmt2f d =
     dec (id_fld d) @ '','' @ fmt2f (value_fld d) @ '','' @ dec (ts_fld d) @ [CHR 0x0A]"

definition file_text :: "('v \<Rightarrow> string) \<Rightarrow> 'v sensor_data list \<Rightarrow> string" where
  "file_text fmt2f lines = concat (map (csv_line fmt2f) lines)"

subsection \<open>\<^verbatim>\<open>producer_thread\<close>\<close>

text \<open>
  The input file is the list of the records that the three \<^verbatim>\<open>fread\<close> calls read in
  full; a short read ends the loop, and what it read of a last, partial record is
  never used. \<open>malloc k\<close> is what \<^verbatim>\<open>malloc\<close> returns in the \<open>k\<close>-th \<open>sbuffer_insert\<close> call
  of the thread. The messages on standard error and the delays are not modelled.
\<close>

definition end_signal :: "'v::zero sensor_data" where
  "end_signal = \<lparr>id_fld = 0, value_fld = 0, ts_fld = 0\<rparr>"

text \<open>The \<^verbatim>\<open>while\<close> loop over the input; it returns the number of inserts made.\<close>

fun producer_read ::
  "addr option \<Rightarrow> 'v sensor_data list \<Rightarrow> (nat \<Rightarrow> addr option) \<Rightarrow> nat \<Rightarrow> 'v heap \<Rightarrow>
     (nat \<times> 'v heap) outcome" where
  "producer_read buffer [] malloc k h = Returned (k, h)"
| "producer_read buffer (sensor_entry # sensor_input) malloc k h =
     (case sbuffer_insert buffer sensor_entry (malloc k) h of
        Blocked \<Rightarrow> Blocked
      | Fault \<Rightarrow> Fault
      | Returned (st, h') \<Rightarrow> producer_read buffer sensor_input malloc (Suc k) h')"

text \<open>
  \<^verbatim>\<open>for (int i = 0; i < NUM_THREADS - 1; i++) sbuffer_insert(buffer, &end_signal)\<close>,
  by the number of rounds left. The status of each insert is dropped, as in the code.
\<close>

fun producer_signal ::
  "addr option \<Rightarrow> nat \<Rightarrow> (nat \<Rightarrow> addr option) \<Rightarrow> nat \<Rightarrow> 'v::zero heap \<Rightarrow> 'v heap outcome" where
  "producer_signal buffer 0 malloc k h = Returned h"
| "producer_signal buffer (Suc i) malloc k h =
     (case sbuffer_insert buffer end_signal (malloc k) h of
        Blocked \<Rightarrow> Blocked
      | Fault \<Rightarrow> Fault
      | Returned (st, h') \<Rightarrow> producer_signal buffer i malloc (Suc k) h')"

definition producer_thread ::
  "addr option \<Rightarrow> 'v sensor_data list option \<Rightarrow> (nat \<Rightarrow> addr option) \<Rightarrow> 'v::zero heap \<Rightarrow>
     'v heap outcome" where
  "producer_thread buffer sensor_file malloc h =
     (case sensor_file of
        None \<Rightarrow> Returned h
      | Some sensor_input \<Rightarrow>
          (case producer_read buffer sensor_input malloc 0 h of
             Blocked \<Rightarrow> Blocked
           | Fault \<Rightarrow> Fault
           | Returned (k, h1) \<Rightarrow> producer_signal buffer (NUM_THREADS - 1) malloc k h1))"

subsection \<open>\<^verbatim>\<open>consumer_thread\<close>\<close>

text \<open>
  How a run of the consumer ends: it leaves its loop and exits, or the fuel runs out
  with the loop still running, or it waits in \<open>sbuffer_remove\<close> forever, or it faults.
  The first two carry the output file and the store.
\<close>

datatype 'v consumer_run =
    Exits "'v sensor_data list option" "'v heap"
  | Runs "'v sensor_data list option" "'v heap"
  | Waits
  | Crashes

text \<open>
  The \<^verbatim>\<open>while (true)\<close> loop, with fuel: one unit per iteration. \<open>retrieved_data\<close> is
  the local variable, which the code does not initialise, so its first content is an
  argument. \<open>io k\<close> gives what \<^verbatim>\<open>fprintf\<close> and \<^verbatim>\<open>fflush\<close> return in the \<open>k\<close>-th call of
  \<open>log_sensor_data\<close>. The lock around the sink, the messages and the delay are not
  modelled.
\<close>

fun consumer_thread ::
  "nat \<Rightarrow> (nat \<Rightarrow> int \<times> int) \<Rightarrow> addr option \<Rightarrow> 'v sensor_data list option \<Rightarrow>
     'v sensor_data \<Rightarrow> nat \<Rightarrow> 'v heap \<Rightarrow> 'v consumer_run" where
  "consumer_thread 0 io buffer output_csv retrieved_data k h = Runs output_csv h"
| "consumer_thread (Suc n) io buffer output_csv retrieved_data k h =
     (case sbuffer_remove buffer retrieved_data h of
        Blocked \<Rightarrow> Waits
      | Fault \<Rightarrow> Crashes
      | Returned (status, d, h') \<Rightarrow>
          if status = SBUFFER_FAILURE then consumer_thread n io buffer output_csv d k h'
          else if id_fld d = 0 then Exits output_csv h'
          else
            (case log_sensor_data output_csv (id_fld d) (value_fld d) (ts_fld d)
                    (fst (io k)) (snd (io k)) of
               (rc, f) \<Rightarrow> consumer_thread n io buffer f d (Suc k) h'))"

section \<open>Reachable buffer states\<close>

text \<open>
  The stores in which the buffer at \<open>b\<close> can be after a successful \<open>sbuffer_init\<close> and
  any number of \<open>sbuffer_insert\<close> and \<open>sbuffer_remove\<close> calls that returned. \<^verbatim>\<open>malloc\<close>
  returns \<^verbatim>\<open>NULL\<close> or an address that is not allocated.
\<close>

inductive reachable :: "addr \<Rightarrow> 'v heap \<Rightarrow> bool" for b :: addr where
  init: "sbuffer_init (Some b) mutex_rc cond_rc h0 = (SBUFFER_SUCCESS, p, h) \<Longrightarrow> reachable b h"
| ins: "reachable b h \<Longrightarrow> \<forall>a. m = Some a \<longrightarrow> nodes h a = None \<Longrightarrow>
          sbuffer_insert (Some b) d m h = Returned (st, h') \<Longrightarrow> reachable b h'"
| rem: "reachable b h \<Longrightarrow> sbuffer_remove (Some b) d h = Returned (st, d', h') \<Longrightarrow>
          reachable b h'"

section \<open>Concrete stores and records\<close>

text \<open>An empty buffer at address 0 and no node allocated.\<close>

definition store0 :: "int heap" where
  "store0 = \<lparr>bufs = [0 \<mapsto> \<lparr>head = None, tail = None\<rparr>], nodes = Map.empty\<rparr>"

definition rec1 :: "int sensor_data" where
  "rec1 = \<lparr>id_fld = 1, value_fld = 10, ts_fld = 100\<rparr>"

definition rec2 :: "int sensor_data" where
  "rec2 = \<lparr>id_fld = 2, value_fld = 20, ts_fld = 200\<rparr>"

text \<open>An allocator that hands out the addresses 1, 2, ...\<close>

definition bump_alloc :: "nat \<Rightarrow> addr option" where
  "bump_alloc k = Some (Suc k)"

text \<open>An allocator whose first call fails; the \<open>k\<close>-th call after it returns the address \<open>k\<close>.\<close>

definition skip_first :: "nat \<Rightarrow> addr option" where
  "skip_first k = (if k = 0 then None else Some k)"

text \<open>Standard I/O that never fails.\<close>

definition io_ok :: "nat \<Rightarrow> int \<times> int" where
  "io_ok k = (0, 0)"

text \<open>A buffer at address 0 that holds two end-of-stream markers and nothing else.\<close>

definition store_end :: "int heap" where
  "store_end = \<lparr>bufs = [0 \<mapsto> \<lparr>head = Some 1, tail = Some 2\<rparr>],
                 nodes = [1 \<mapsto> \<lparr>next_ptr = Some 2, data_fld = end_signal\<rparr>,
                          2 \<mapsto> \<lparr>next_ptr = None, data_fld = end_signal\<rparr>]\<rparr>"

text \<open>
  An allocator with room for one node, and the store in which the buffer at address 0
  holds the record \<open>rec1\<close> in that node.
\<close>

definition one_node :: "nat \<Rightarrow> addr option" where
  "one_node k = (if k = 0 then Some 1 else None)"

definition store_one :: "int heap" where
  "store_one = \<lparr>bufs = [0 \<mapsto> \<lparr>head = Some 1, tail = Some 1\<rparr>],
                 nodes = [1 \<mapsto> \<lparr>next_ptr = None, data_fld = rec1\<rparr>]\<rparr>"

text \<open>The store before \<open>sbuffer_init\<close>: nothing is allocated.\<close>

definition store_none :: "int heap" where
  "store_none = \<lparr>bufs = Map.empty, nodes = Map.empty\<rparr>"

text \<open>
  The buffer at address 0 after the producer has read the one record \<open>rec1\<close> and
  signalled the end of the stream, and the same buffer once \<open>rec1\<close> has been removed.
\<close>

definition store_bug :: "int heap" where
  "store_bug = \<lparr>bufs = [0 \<mapsto> \<lparr>head = Some 1, tail = Some 3\<rparr>],
                 nodes = [1 \<mapsto> \<lparr>next_ptr = Some 2, data_fld = rec1\<rparr>,
                          2 \<mapsto> \<lparr>next_ptr = Some 3, data_fld = end_signal\<rparr>,
                          3 \<mapsto> \<lparr>next_ptr = None, data_fld = end_signal\<rparr>]\<rparr>"

definition store_stuck :: "int heap" where
  "store_stuck = \<lparr>bufs = [0 \<mapsto> \<lparr>head = Some 2, tail = Some 3\<rparr>],
                 nodes = [2 \<mapsto> \<lparr>next_ptr = Some 3, data_fld = end_signal\<rparr>,
                          3 \<mapsto> \<lparr>next_ptr = None, data_fld = end_signal\<rparr>]\<rparr>"

text \<open>
  A run of a producer and a consumer: an insert, a remove, two more inserts (the first
  at the address that the remove has freed, the second of a sentinel) and two removes.
\<close>

definition schedule1 :: "int call list" where
  "schedule1 = [Insert rec1 (Some 1), Remove, Insert rec2 (Some 1), Insert end_signal (Some 2),
                Remove, Remove]"

text \<open>A rendering of whole numbers with two decimal places.\<close>

definition two_decimals :: "int \<Rightarrow> string" where
  "two_decimals v = dec v @ ''.00''"

section \<open>Properties of the buffer\<close>

lemma wait_nonempty:
  "bufs h b = Some q \<Longrightarrow> head q = Some p \<Longrightarrow> wait_while_empty b h = Some h"
  by (subst wait_while_empty.simps) simp

lemma wait_returns_nonempty:
  assumes "wait_while_empty b h = Some h'"
  shows "h' = h \<and> (\<forall>q. bufs h b = Some q \<longrightarrow> head q \<noteq> None)"
proof (rule wait_while_empty.raw_induct
    [where P = "\<lambda>b h h'. h' = h \<and> (\<forall>q. bufs h b = Some q \<longrightarrow> head q \<noteq> None)", OF _ assms])
  fix rec_call :: "addr \<Rightarrow> 'a heap \<Rightarrow> 'a heap option" and b h h'
  assume IH: "\<And>b h h'. rec_call b h = Some h' \<Longrightarrow>
                h' = h \<and> (\<forall>q. bufs h b = Some q \<longrightarrow> head q \<noteq> None)"
    and step: "(case bufs h b of None \<Rightarrow> Some h
                | Some q \<Rightarrow> if head q = None then rec_call b (pthread_cond_wait h) else Some h) = Some h'"
  show "h' = h \<and> (\<forall>q. bufs h b = Some q \<longrightarrow> head q \<noteq> None)"
  proof (cases "bufs h b")
    case None
    with step show ?thesis by simp
  next
    case (Some q)
    show ?thesis
    proof (cases "head q")
      case None
      with Some step have "rec_call b h = Some h'" by (simp add: pthread_cond_wait_def)
      from IH [OF this] Some None show ?thesis by simp
    next
      case (Some p)
      with \<open>bufs h b = Some q\<close> step show ?thesis by simp
    qed
  qed
qed

lemma wait_empty:
  assumes "bufs h b = Some q" and "head q = None"
  shows "wait_while_empty b h = None"
proof (cases "wait_while_empty b h")
  case None
  then show ?thesis .
next
  case (Some h')
  from wait_returns_nonempty [OF this] assms show ?thesis by simp
qed

lemma wait_eval:
  "wait_while_empty b h =
     (case bufs h b of None \<Rightarrow> Some h | Some q \<Rightarrow> if head q = None then None else Some h)"
proof (cases "bufs h b")
  case None
  then show ?thesis by (subst wait_while_empty.simps) simp
next
  case (Some q)
  then show ?thesis
    by (cases "head q") (simp_all add: wait_empty wait_nonempty)
qed

lemma chain_upd_other:
  "a \<notin> fst ` set cs \<Longrightarrow> chain (ns(a := v)) p cs = chain ns p cs"
  by (induction cs arbitrary: p) (auto split: option.splits)

lemma chain_allocated:
  "chain ns p cs \<Longrightarrow> c \<in> set cs \<Longrightarrow> ns (fst c) \<noteq> None"
  by (induction cs arbitrary: p) (auto split: option.splits)

lemma chain_snoc:
  assumes "chain ns p cs" and "cs \<noteq> []" and "distinct (map fst cs)"
    and "a \<notin> fst ` set cs" and "ns (fst (last cs)) = Some tn"
  shows "chain ((ns(a \<mapsto> \<lparr>next_ptr = None, data_fld = d\<rparr>))
                  (fst (last cs) \<mapsto> tn\<lparr>next_ptr := Some a\<rparr>)) p (cs @ [(a, d)])"
  using assms
proof (induction cs arbitrary: p)
  case Nil
  then show ?case by simp
next
  case (Cons c cs)
  show ?case
  proof (cases "cs = []")
    case True
    with Cons.prems show ?thesis by (auto split: option.splits)
  next
    case False
    with Cons.prems obtain n where n: "ns (fst c) = Some n" "data_fld n = snd c"
      "chain ns (next_ptr n) cs" "p = Some (fst c)"
      by (auto split: option.splits)
    from False have "fst (last cs) \<in> fst ` set cs" by simp
    moreover from Cons.prems have "fst c \<notin> fst ` set cs" by simp
    ultimately have "fst (last cs) \<noteq> fst c" by metis
    moreover from Cons.prems have "a \<noteq> fst c" by auto
    moreover have "chain ((ns(a \<mapsto> \<lparr>next_ptr = None, data_fld = d\<rparr>))
                  (fst (last cs) \<mapsto> tn\<lparr>next_ptr := Some a\<rparr>)) (next_ptr n) (cs @ [(a, d)])"
    proof (rule Cons.IH [OF n(3) False])
      show "distinct (map fst cs)" using Cons.prems by simp
      show "a \<notin> fst ` set cs" using Cons.prems by simp
      show "ns (fst (last cs)) = Some tn" using Cons.prems False by simp
    qed
    ultimately have "((ns(a \<mapsto> \<lparr>next_ptr = None, data_fld = d\<rparr>))
                  (fst (last cs) \<mapsto> tn\<lparr>next_ptr := Some a\<rparr>)) (fst c) = Some n"
      and "chain ((ns(a \<mapsto> \<lparr>next_ptr = None, data_fld = d\<rparr>))
                  (fst (last cs) \<mapsto> tn\<lparr>next_ptr := Some a\<rparr>)) (next_ptr n) (cs @ [(a, d)])"
      using n by simp_all
    with n False show ?thesis by (simp del: fun_upd_apply)
  qed
qed

lemma queue_atD:
  assumes "queue_at h b cs"
  obtains q where "bufs h b = Some q" and "chain (nodes h) (head q) cs"
    and "distinct (map fst cs)" and "tail q = (if cs = [] then None else Some (fst (last cs)))"
  using assms by (auto simp: queue_at_def split: option.splits)

lemma queue_at_head_tail:
  "queue_at h b cs \<Longrightarrow> bufs h b = Some q \<Longrightarrow>
     (head q = None \<longleftrightarrow> cs = []) \<and> (tail q = None \<longleftrightarrow> cs = [])"
  by (cases cs) (auto simp: queue_at_def)

lemma insert_queue:
  assumes q: "queue_at h b cs" and fresh: "nodes h a = None"
  shows "\<exists>h'. sbuffer_insert (Some b) d (Some a) h = Returned (SBUFFER_SUCCESS, h') \<and>
              queue_at h' b (cs @ [(a, d)]) \<and>
              (\<forall>x. x \<noteq> a \<longrightarrow> (nodes h' x = None \<longleftrightarrow> nodes h x = None))"
proof -
  from q obtain q0 where q0: "bufs h b = Some q0" "chain (nodes h) (head q0) cs"
    "distinct (map fst cs)" "tail q0 = (if cs = [] then None else Some (fst (last cs)))"
    by (rule queue_atD)
  have notin: "a \<notin> fst ` set cs"
    using chain_allocated [OF q0(2)] fresh by fastforce
  show ?thesis
  proof (cases "cs = []")
    case True
    with q0 show ?thesis
      by (simp add: sbuffer_insert_def queue_at_def)
  next
    case False
    then have "last cs \<in> set cs" by simp
    from chain_allocated [OF q0(2) this] obtain tn where tn: "nodes h (fst (last cs)) = Some tn"
      by auto
    with fresh have neq: "fst (last cs) \<noteq> a" by auto
    have ch: "chain ((nodes h)(a \<mapsto> \<lparr>next_ptr = None, data_fld = d\<rparr>,
                 fst (last cs) \<mapsto> tn\<lparr>next_ptr := Some a\<rparr>)) (head q0) (cs @ [(a, d)])"
      by (rule chain_snoc [OF q0(2) False q0(3) notin tn])
    from q0 False tn neq notin ch show ?thesis
      by (simp add: sbuffer_insert_def queue_at_def del: fun_upd_apply)
         (simp)
  qed
qed


lemma insert_null_malloc: "sbuffer_insert (Some b) r None h = Returned (SBUFFER_FAILURE, h)"
  by (simp add: sbuffer_insert_def)

lemma remove_blocks:
  assumes "queue_at h b []"
  shows "sbuffer_remove (Some b) d h = Blocked"
proof -
  from assms obtain q where "bufs h b = Some q" "head q = None"
    by (auto simp: queue_at_def split: option.splits)
  then have "wait_while_empty b h = None" by (rule wait_empty)
  then show ?thesis by (simp add: sbuffer_remove_def)
qed

lemma remove_sentinel:
  assumes "bufs h b = Some q" and "head q = Some p" and "nodes h p = Some n"
    and "id_fld (data_fld n) = 0"
  shows "sbuffer_remove (Some b) d h = Returned (SBUFFER_NO_DATA, d, h)"
  using assms wait_nonempty [OF assms(1,2)] by (simp add: sbuffer_remove_def)

lemma remove_queue:
  assumes q: "queue_at h b ((p, r) # cs)" and data: "id_fld r \<noteq> 0"
  shows "\<exists>h'. sbuffer_remove (Some b) d h = Returned (SBUFFER_SUCCESS, r, h') \<and>
              queue_at h' b cs \<and>
              (\<forall>x. x \<noteq> p \<longrightarrow> nodes h' x = nodes h x) \<and> nodes h' p = None"
proof -
  from q obtain q0 n where q0: "bufs h b = Some q0" "head q0 = Some p"
    "nodes h p = Some n" "data_fld n = r" "chain (nodes h) (next_ptr n) cs"
    "p \<notin> fst ` set cs" "distinct (map fst cs)"
    "tail q0 = Some (fst (last ((p, r) # cs)))"
    by (auto simp: queue_at_def split: option.splits)
  have w: "wait_while_empty b h = Some h" using q0(1,2) by (rule wait_nonempty)
  have ch: "chain ((nodes h)(p := None)) (next_ptr n) cs"
    using q0(5,6) by (simp add: chain_upd_other)
  show ?thesis
  proof (cases "cs = []")
    case True
    with q0 w data show ?thesis
      by (simp add: sbuffer_remove_def queue_at_def)
  next
    case False
    then have "fst (last cs) \<in> fst ` set cs" by simp
    with q0(6) have "fst (last cs) \<noteq> p" by metis
    with q0 w data False ch show ?thesis
      by (simp add: sbuffer_remove_def queue_at_def)
  qed
qed


lemma insert_calls_queue:
  assumes "queue_at h b cs" and "length as = length rs" and "distinct as"
    and "\<forall>a\<in>set as. nodes h a = None"
  shows "\<exists>h'. insert_calls (Some b) (zip rs (map Some as)) h =
                (replicate (length rs) SBUFFER_SUCCESS, Returned h') \<and>
              queue_at h' b (cs @ zip as rs)"
  using assms
proof (induction rs arbitrary: as cs h)
  case Nil
  then show ?case by simp
next
  case (Cons r rs)
  then obtain a as' where as: "as = a # as'" by (cases as) auto
  with Cons.prems have fresh: "nodes h a = None" by simp
  from insert_queue [OF Cons.prems(1) fresh, of r] obtain h1 where
    h1: "sbuffer_insert (Some b) r (Some a) h = Returned (SBUFFER_SUCCESS, h1)"
      "queue_at h1 b (cs @ [(a, r)])"
      "\<forall>x. x \<noteq> a \<longrightarrow> (nodes h1 x = None \<longleftrightarrow> nodes h x = None)"
    by blast
  have "\<forall>x\<in>set as'. nodes h1 x = None"
    using h1(3) Cons.prems(3,4) as by auto
  moreover have "length as' = length rs" "distinct as'"
    using Cons.prems(2,3) as by auto
  ultimately obtain h' where
    h': "insert_calls (Some b) (zip rs (map Some as')) h1 =
           (replicate (length rs) SBUFFER_SUCCESS, Returned h')"
      "queue_at h' b ((cs @ [(a, r)]) @ zip as' rs)"
    using Cons.IH [OF h1(2)] by blast
  with h1(1) as show ?case by simp
qed

lemma remove_calls_queue:
  assumes "queue_at h b cs"
  shows "removed (fst (remove_calls k (Some b) d h)) = take k (takeWhile is_data (map snd cs))"
  using assms
proof (induction k arbitrary: cs d h)
  case 0
  then show ?case by (simp add: removed_def)
next
  case (Suc k)
  show ?case
  proof (cases cs)
    case Nil
    with Suc.prems show ?thesis by (simp add: remove_blocks removed_def)
  next
    case (Cons c cs')
    obtain p r where c: "c = (p, r)" by (cases c)
    show ?thesis
    proof (cases "id_fld r = 0")
      case True
      from Suc.prems Cons c obtain q n where "bufs h b = Some q" "head q = Some p"
        "nodes h p = Some n" "data_fld n = r"
        by (auto simp: queue_at_def split: option.splits)
      with True have "sbuffer_remove (Some b) d h = Returned (SBUFFER_NO_DATA, d, h)"
        by (simp add: remove_sentinel)
      with Suc.IH [OF Suc.prems, of d] Cons c True show ?thesis
        by (simp add: removed_def is_data_def case_prod_beta)
    next
      case False
      from Suc.prems Cons c have "queue_at h b ((p, r) # cs')" by simp
      from remove_queue [OF this False, of d] obtain h' where
        h': "sbuffer_remove (Some b) d h = Returned (SBUFFER_SUCCESS, r, h')" "queue_at h' b cs'"
        by blast
      with Suc.IH [OF h'(2), of r] Cons c False show ?thesis
        by (simp add: removed_def is_data_def case_prod_beta)
    qed
  qed
qed

lemma remove_calls_trace:
  assumes "queue_at h b cs" and "k \<le> length (takeWhile is_data (map snd cs))"
  shows "fst (remove_calls k (Some b) d h) =
           map (Pair SBUFFER_SUCCESS) (take k (map snd cs))"
  using assms
proof (induction k arbitrary: cs d h)
  case 0
  then show ?case by simp
next
  case (Suc k)
  then obtain p r cs' where cs: "cs = (p, r) # cs'" and r: "id_fld r \<noteq> 0"
    by (cases cs) (auto simp: is_data_def split: if_splits)
  from Suc.prems cs have "queue_at h b ((p, r) # cs')" by simp
  from remove_queue [OF this r, of d] obtain h' where
    h': "sbuffer_remove (Some b) d h = Returned (SBUFFER_SUCCESS, r, h')" "queue_at h' b cs'"
    by blast
  from r have "is_data r" by (simp add: is_data_def)
  with Suc.prems cs have "k \<le> length (takeWhile is_data (map snd cs'))"
    by simp
  from Suc.IH [OF h'(2) this, of r] h'(1) cs show ?case
    by (simp add: case_prod_beta)
qed

section \<open>First in, first out\<close>

text \<open>
  Claim C1. Records inserted one after the other into an empty buffer, with nothing
  in between, come out in the order of insertion: every insert succeeds (each
  \<^verbatim>\<open>malloc\<close> returns a fresh address), and in any number of \<open>sbuffer_remove\<close> calls that
  follow, the \<open>i\<close>-th call that returns \<^verbatim>\<open>SBUFFER_SUCCESS\<close> hands out the \<open>i\<close>-th
  inserted record. When no inserted record has the id 0, as many calls as there are
  records hand out exactly the inserted records.
\<close>

theorem fifo_order:
  assumes "queue_at h b []" and "length as = length rs" and "distinct as"
    and "\<forall>a\<in>set as. nodes h a = None"
  shows "\<exists>h'. insert_calls (Some b) (zip rs (map Some as)) h =
                 (replicate (length rs) SBUFFER_SUCCESS, Returned h') \<and>
              (\<forall>k d i. i < length (removed (fst (remove_calls k (Some b) d h'))) \<longrightarrow>
                         removed (fst (remove_calls k (Some b) d h')) ! i = rs ! i) \<and>
              ((\<forall>r\<in>set rs. id_fld r \<noteq> 0) \<longrightarrow>
                 (\<forall>d. removed (fst (remove_calls (length rs) (Some b) d h')) = rs))"
proof -
  from insert_calls_queue [OF assms] obtain h' where
    ins: "insert_calls (Some b) (zip rs (map Some as)) h =
            (replicate (length rs) SBUFFER_SUCCESS, Returned h')"
    and q: "queue_at h' b (zip as rs)"
    by auto
  have snd_zip: "map snd (zip as rs) = rs"
    using assms(2) by simp
  have out: "removed (fst (remove_calls k (Some b) d h')) = take k (takeWhile is_data rs)"
    for k d
    using remove_calls_queue [OF q, of k d] snd_zip by simp
  have nth: "removed (fst (remove_calls k (Some b) d h')) ! i = rs ! i"
    if "i < length (removed (fst (remove_calls k (Some b) d h')))" for k d i
  proof -
    from that have "i < k" "i < length (takeWhile is_data rs)"
      by (simp_all add: out)
    then show ?thesis
      by (simp add: out takeWhile_nth)
  qed
  have all: "removed (fst (remove_calls (length rs) (Some b) d h')) = rs"
    if "\<forall>r\<in>set rs. id_fld r \<noteq> 0" for d
  proof -
    from that have "\<forall>r\<in>set rs. is_data r"
      by (simp add: is_data_def)
    then have "takeWhile is_data rs = rs"
      by (simp only: takeWhile_eq_all_conv)
    then show ?thesis
      by (metis out take_all order_refl)
  qed
  from ins nth all show ?thesis by blast
qed

theorem fifo_order_witness:
  "queue_at store0 0 [] \<and> distinct [1, 2 :: nat] \<and>
   (\<exists>h'. insert_calls (Some 0) [(rec1, Some 1), (rec2, Some 2)] store0 =
            ([SBUFFER_SUCCESS, SBUFFER_SUCCESS], Returned h') \<and>
          removed (fst (remove_calls 2 (Some 0) rec2 h')) = [rec1, rec2])"
proof -
  have q: "queue_at store0 0 []"
    by (simp add: queue_at_def store0_def)
  have len: "length [1, 2 :: nat] = length [rec1, rec2]" by simp
  have dist: "distinct [1, 2 :: nat]" by simp
  have fresh: "\<forall>a\<in>set [1, 2 :: nat]. nodes store0 a = None"
    by (simp add: store0_def)
  have data: "\<forall>r\<in>set [rec1, rec2]. id_fld r \<noteq> 0"
    by (simp add: rec1_def rec2_def)
  from fifo_order [OF q len dist fresh] data q dist show ?thesis
    by (auto simp: numeral_2_eq_2)
qed

section \<open>No loss with one consumer\<close>

lemma run_calls_queue:
  assumes "queue_at h b cs" and "fresh_mallocs (Some b) cl d h"
  shows "\<exists>ins rem fin.
           run_calls (Some b) cl d h = ((ins, rem), fin) \<and>
           list_all is_data rem \<and> fin \<noteq> Fault \<and>
           (fin = Blocked \<longrightarrow> map snd cs @ ins = rem) \<and>
           (\<forall>d' h'. fin = Returned (d', h') \<longrightarrow>
              ins = accepted cl \<and>
              (\<exists>cs'. queue_at h' b cs' \<and> map snd cs @ ins = rem @ map snd cs'))"
  using assms
proof (induction cl arbitrary: cs d h)
  case Nil
  then show ?case by auto
next
  case (Cons c cl)
  show ?case
  proof (cases c)
    case (Insert r m)
    show ?thesis
    proof (cases m)
      case None
      have i: "sbuffer_insert (Some b) r None h = Returned (SBUFFER_FAILURE, h)"
        by (rule insert_null_malloc)
      with Cons.prems(2) Insert None have "fresh_mallocs (Some b) cl d h" by simp
      from Cons.IH [OF Cons.prems(1) this] obtain ins rem fin where
        "run_calls (Some b) cl d h = ((ins, rem), fin)" "list_all is_data rem" "fin \<noteq> Fault"
        "fin = Blocked \<longrightarrow> map snd cs @ ins = rem"
        "\<forall>d' h'. fin = Returned (d', h') \<longrightarrow>
              ins = accepted cl \<and>
              (\<exists>cs'. queue_at h' b cs' \<and> map snd cs @ ins = rem @ map snd cs')"
        by blast
      with i Insert None show ?thesis by auto
    next
      case (Some a)
      with Cons.prems(2) Insert have fresh: "nodes h a = None" by simp
      from insert_queue [OF Cons.prems(1) fresh, of r] obtain h1 where
        h1: "sbuffer_insert (Some b) r (Some a) h = Returned (SBUFFER_SUCCESS, h1)"
          "queue_at h1 b (cs @ [(a, r)])"
        by blast
      with Cons.prems(2) Insert Some have "fresh_mallocs (Some b) cl d h1" by simp
      from Cons.IH [OF h1(2) this] obtain ins rem fin where
        "run_calls (Some b) cl d h1 = ((ins, rem), fin)" "list_all is_data rem" "fin \<noteq> Fault"
        "fin = Blocked \<longrightarrow> map snd (cs @ [(a, r)]) @ ins = rem"
        "\<forall>d' h'. fin = Returned (d', h') \<longrightarrow>
              ins = accepted cl \<and>
              (\<exists>cs'. queue_at h' b cs' \<and> map snd (cs @ [(a, r)]) @ ins = rem @ map snd cs')"
        by blast
      with h1(1) Insert Some show ?thesis by auto
    qed
  next
    case Remove
    show ?thesis
    proof (cases cs)
      case Nil
      with Cons.prems(1) have "sbuffer_remove (Some b) d h = Blocked"
        by (simp add: remove_blocks)
      with Remove Nil show ?thesis by simp
    next
      case (Cons x cs')
      obtain p r where x: "x = (p, r)" by (cases x)
      show ?thesis
      proof (cases "id_fld r = 0")
        case True
        from Cons.prems(1) Cons x obtain q n where "bufs h b = Some q" "head q = Some p"
          "nodes h p = Some n" "data_fld n = r"
          by (auto simp: queue_at_def split: option.splits)
        with True have rm: "sbuffer_remove (Some b) d h = Returned (SBUFFER_NO_DATA, d, h)"
          by (simp add: remove_sentinel)
        with \<open>fresh_mallocs (Some b) (c # cl) d h\<close> Remove
        have "fresh_mallocs (Some b) cl d h" by simp
        from Cons.IH [OF \<open>queue_at h b cs\<close> this] obtain ins rem fin where
          "run_calls (Some b) cl d h = ((ins, rem), fin)" "list_all is_data rem" "fin \<noteq> Fault"
          "fin = Blocked \<longrightarrow> map snd cs @ ins = rem"
          "\<forall>d' h'. fin = Returned (d', h') \<longrightarrow>
              ins = accepted cl \<and>
              (\<exists>cs'. queue_at h' b cs' \<and> map snd cs @ ins = rem @ map snd cs')"
          by blast
        with rm Remove show ?thesis by auto
      next
        case False
        from \<open>queue_at h b cs\<close> Cons x have "queue_at h b ((p, r) # cs')" by simp
        from remove_queue [OF this False, of d] obtain h1 where
          h1: "sbuffer_remove (Some b) d h = Returned (SBUFFER_SUCCESS, r, h1)"
            "queue_at h1 b cs'"
          by blast
        with \<open>fresh_mallocs (Some b) (c # cl) d h\<close> Remove
        have "fresh_mallocs (Some b) cl r h1" by simp
        from Cons.IH [OF h1(2) this] obtain ins rem fin where
          "run_calls (Some b) cl r h1 = ((ins, rem), fin)" "list_all is_data rem" "fin \<noteq> Fault"
          "fin = Blocked \<longrightarrow> map snd cs' @ ins = rem"
          "\<forall>d' h'. fin = Returned (d', h') \<longrightarrow>
              ins = accepted cl \<and>
              (\<exists>cs''. queue_at h' b cs'' \<and> map snd cs' @ ins = rem @ map snd cs'')"
          by blast
        moreover from False have "is_data r" by (simp add: is_data_def)
        ultimately show ?thesis using h1(1) Remove Cons x by auto
      qed
    qed
  qed
qed


lemma remove_calls_then_blocks:
  assumes "queue_at h b cs" and "list_all is_data (map snd cs)"
  shows "snd (remove_calls (Suc (length cs)) (Some b) e h) = Blocked"
  using assms
proof (induction cs arbitrary: e h)
  case Nil
  then show ?case by (simp add: remove_blocks)
next
  case (Cons x cs)
  obtain p r where x: "x = (p, r)" by (cases x)
  with Cons.prems have "is_data r" and rest: "list_all is_data (map snd cs)"
    by simp_all
  then have r: "id_fld r \<noteq> 0" by (simp add: is_data_def)
  from Cons.prems(1) x have "queue_at h b ((p, r) # cs)" by simp
  from remove_queue [OF this r, of e] obtain h' where
    h': "sbuffer_remove (Some b) e h = Returned (SBUFFER_SUCCESS, r, h')" "queue_at h' b cs"
    by blast
  from Cons.IH [OF h'(2) rest, of r] h'(1) show ?case
    by (simp add: case_prod_beta)
qed

text \<open>
  Claim C6. With one producer and one consumer no record is lost and none comes twice,
  however their calls interleave. Take any sequence of insert and remove calls on a
  buffer that starts empty. The run never faults. The records handed out are data
  records, and they are exactly the first of the inserted records, in the order of
  insertion: the inserted records are those handed out followed by those still in
  the queue. When the run ends with the consumer waiting, every inserted record has
  been handed out. Otherwise the inserted records are those whose \<^verbatim>\<open>malloc\<close> succeeded,
  and the removes that follow hand out, one per call and in order, the queued records
  in front of the first sentinel, and nothing after them; when no sentinel is queued,
  the next remove waits for more.
\<close>

theorem no_loss_single_consumer:
  assumes "queue_at h b []" and "fresh_mallocs (Some b) cl d h"
  shows "\<exists>ins rem fin.
           run_calls (Some b) cl d h = ((ins, rem), fin) \<and>
           list_all is_data rem \<and> fin \<noteq> Fault \<and>
           (fin = Blocked \<longrightarrow> rem = ins) \<and>
           (\<forall>d' h'. fin = Returned (d', h') \<longrightarrow>
              ins = accepted cl \<and>
              (\<exists>cs. queue_at h' b cs \<and> ins = rem @ map snd cs \<and>
                 (\<forall>e. fst (remove_calls (length (takeWhile is_data (map snd cs))) (Some b) e h') =
                        map (Pair SBUFFER_SUCCESS) (takeWhile is_data (map snd cs))) \<and>
                 (\<forall>k e. length (takeWhile is_data (map snd cs)) \<le> k \<longrightarrow>
                        removed (fst (remove_calls k (Some b) e h')) =
                        takeWhile is_data (map snd cs)) \<and>
                 (\<forall>e. list_all is_data (map snd cs) \<longrightarrow>
                        snd (remove_calls (Suc (length cs)) (Some b) e h') = Blocked)))"
proof -
  from run_calls_queue [OF assms] obtain ins rem fin where
    run: "run_calls (Some b) cl d h = ((ins, rem), fin)"
    and data: "list_all is_data rem" and nf: "fin \<noteq> Fault"
    and bl: "fin = Blocked \<longrightarrow> ins = rem"
    and ret: "\<forall>d' h'. fin = Returned (d', h') \<longrightarrow>
              ins = accepted cl \<and> (\<exists>cs'. queue_at h' b cs' \<and> ins = rem @ map snd cs')"
    by auto
  have drain: "ins = accepted cl \<and>
              (\<exists>cs. queue_at h' b cs \<and> ins = rem @ map snd cs \<and>
                 (\<forall>e. fst (remove_calls (length (takeWhile is_data (map snd cs))) (Some b) e h') =
                        map (Pair SBUFFER_SUCCESS) (takeWhile is_data (map snd cs))) \<and>
                 (\<forall>k e. length (takeWhile is_data (map snd cs)) \<le> k \<longrightarrow>
                        removed (fst (remove_calls k (Some b) e h')) =
                        takeWhile is_data (map snd cs)) \<and>
                 (\<forall>e. list_all is_data (map snd cs) \<longrightarrow>
                        snd (remove_calls (Suc (length cs)) (Some b) e h') = Blocked))"
    if "fin = Returned (d', h')" for d' h'
  proof -
    from ret that obtain cs where acc: "ins = accepted cl" and q: "queue_at h' b cs"
      and split: "ins = rem @ map snd cs"
      by blast
    let ?ds = "takeWhile is_data (map snd cs)"
    have "take (length ?ds) (map snd cs) = ?ds"
      by (metis takeWhile_eq_take)
    then have tr: "fst (remove_calls (length ?ds) (Some b) e h') = map (Pair SBUFFER_SUCCESS) ?ds"
      for e
      using remove_calls_trace [OF q, of "length ?ds" e] by simp
    have out: "removed (fst (remove_calls k (Some b) e h')) = ?ds" if "length ?ds \<le> k" for k e
      using remove_calls_queue [OF q, of k e] that by simp
    have bl: "snd (remove_calls (Suc (length cs)) (Some b) e h') = Blocked"
      if "list_all is_data (map snd cs)" for e
      using remove_calls_then_blocks [OF q that] .
    from acc q split tr out bl show ?thesis by blast
  qed
  from run data nf bl drain show ?thesis by blast
qed


theorem no_loss_single_consumer_witness:
  "queue_at store0 0 [] \<and> fresh_mallocs (Some 0) schedule1 rec2 store0 \<and>
   fst (run_calls (Some 0) schedule1 rec2 store0) = ([rec1, rec2, end_signal], [rec1, rec2]) \<and>
   accepted schedule1 = [rec1, rec2, end_signal] \<and>
   (\<exists>d' h' cs. snd (run_calls (Some 0) schedule1 rec2 store0) = Returned (d', h') \<and>
      queue_at h' 0 cs \<and> map snd cs = [end_signal] \<and>
      removed (fst (remove_calls 3 (Some 0) rec1 h')) = [])"
proof -
  have q: "queue_at store0 0 []"
    by (simp add: queue_at_def store0_def)
  have f: "fresh_mallocs (Some 0) schedule1 rec2 store0"
    by (simp add: schedule1_def sbuffer_insert_def sbuffer_remove_def wait_eval store0_def
          rec1_def rec2_def end_signal_def)
  have r: "fst (run_calls (Some 0) schedule1 rec2 store0) = ([rec1, rec2, end_signal], [rec1, rec2])"
    by (simp add: schedule1_def sbuffer_insert_def sbuffer_remove_def wait_eval store0_def
          rec1_def rec2_def end_signal_def)
  have a: "accepted schedule1 = [rec1, rec2, end_signal]"
    by (simp add: schedule1_def)
  from no_loss_single_consumer [OF q f] obtain ins rem fin where
    run: "run_calls (Some 0) schedule1 rec2 store0 = ((ins, rem), fin)"
    and nf: "fin \<noteq> Fault" and bl: "fin = Blocked \<longrightarrow> rem = ins"
    and ret: "\<forall>d' h'. fin = Returned (d', h') \<longrightarrow>
              ins = accepted schedule1 \<and>
              (\<exists>cs. queue_at h' 0 cs \<and> ins = rem @ map snd cs \<and>
                 (\<forall>e. fst (remove_calls (length (takeWhile is_data (map snd cs))) (Some 0) e h') =
                        map (Pair SBUFFER_SUCCESS) (takeWhile is_data (map snd cs))) \<and>
                 (\<forall>k e. length (takeWhile is_data (map snd cs)) \<le> k \<longrightarrow>
                        removed (fst (remove_calls k (Some 0) e h')) =
                        takeWhile is_data (map snd cs)) \<and>
                 (\<forall>e. list_all is_data (map snd cs) \<longrightarrow>
                        snd (remove_calls (Suc (length cs)) (Some 0) e h') = Blocked))"
    by blast
  from run r have ir: "ins = [rec1, rec2, end_signal]" "rem = [rec1, rec2]" by simp_all
  with bl have "fin \<noteq> Blocked" by auto
  with nf obtain d' h' where fin: "fin = Returned (d', h')"
    by (cases fin) auto
  with ret ir obtain cs where cs: "queue_at h' 0 cs" "map snd cs = [end_signal]"
    and out: "\<forall>k e. length (takeWhile is_data (map snd cs)) \<le> k \<longrightarrow>
                        removed (fst (remove_calls k (Some 0) e h')) =
                        takeWhile is_data (map snd cs)"
    by auto
  have "takeWhile is_data [end_signal :: int sensor_data] = []"
    by (simp add: is_data_def end_signal_def)
  with out cs(2) have none: "removed (fst (remove_calls 3 (Some 0) rec1 h')) = []"
    by simp
  have s: "snd (run_calls (Some 0) schedule1 rec2 store0) = Returned (d', h')"
    using run fin by simp
  from s cs none
  have "\<exists>d' h' cs. snd (run_calls (Some 0) schedule1 rec2 store0) = Returned (d', h') \<and>
      queue_at h' 0 cs \<and> map snd cs = [end_signal] \<and>
      removed (fst (remove_calls 3 (Some 0) rec1 h')) = []"
    by (intro exI conjI)
  with q f r a show ?thesis by (intro conjI)
qed


section \<open>The end-of-stream marker\<close>

text \<open>
  Claim C3. When the record at the head of the queue has id 0, \<open>sbuffer_remove\<close>
  returns \<^verbatim>\<open>SBUFFER_NO_DATA\<close> and changes neither the store (the sentinel node stays)
  nor the caller's \<^verbatim>\<open>data\<close>; so any number of calls in a row all return
  \<^verbatim>\<open>SBUFFER_NO_DATA\<close> and end in the store they started in.
\<close>

theorem sentinel_not_removed:
  assumes "bufs h b = Some q" and "head q = Some p" and "nodes h p = Some n"
    and "id_fld (data_fld n) = 0"
  shows "sbuffer_remove (Some b) d h = Returned (SBUFFER_NO_DATA, d, h) \<and>
         remove_calls k (Some b) d h = (replicate k (SBUFFER_NO_DATA, d), Returned (d, h))"
proof -
  have one: "sbuffer_remove (Some b) d h = Returned (SBUFFER_NO_DATA, d, h)"
    using assms by (rule remove_sentinel)
  have "remove_calls k (Some b) d h = (replicate k (SBUFFER_NO_DATA, d), Returned (d, h))"
    by (induction k) (simp_all add: one)
  with one show ?thesis by simp
qed

theorem sentinel_not_removed_witness:
  "bufs store_end 0 = Some \<lparr>head = Some 1, tail = Some 2\<rparr> \<and>
   nodes store_end 1 = Some \<lparr>next_ptr = Some 2, data_fld = end_signal\<rparr> \<and>
   id_fld (end_signal :: int sensor_data) = 0 \<and>
   sbuffer_remove (Some 0) rec1 store_end = Returned (SBUFFER_NO_DATA, rec1, store_end) \<and>
   remove_calls 3 (Some 0) rec1 store_end =
     ([(SBUFFER_NO_DATA, rec1), (SBUFFER_NO_DATA, rec1), (SBUFFER_NO_DATA, rec1)],
      Returned (rec1, store_end))"
  using sentinel_not_removed [of store_end 0 "\<lparr>head = Some 1, tail = Some 2\<rparr>" 1
      "\<lparr>next_ptr = Some 2, data_fld = end_signal\<rparr>" rec1 3]
  by (simp add: store_end_def end_signal_def numeral_3_eq_3)

text \<open>
  Claim C9. A call of \<open>sbuffer_remove\<close> that returns anything but \<^verbatim>\<open>SBUFFER_SUCCESS\<close>
  (\<^verbatim>\<open>SBUFFER_FAILURE\<close> for the \<^verbatim>\<open>NULL\<close> buffer, \<^verbatim>\<open>SBUFFER_NO_DATA\<close> for a sentinel at
  the head) has not written to the caller's \<^verbatim>\<open>data\<close>: its content after the call is
  its content before. The store is unchanged as well.
\<close>

theorem remove_failure_keeps_data:
  assumes "sbuffer_remove buffer d h = Returned (st, d', h')" and "st \<noteq> SBUFFER_SUCCESS"
  shows "d' = d \<and> h' = h"
proof (cases buffer)
  case None
  with assms show ?thesis by (simp add: sbuffer_remove_def)
next
  case (Some b)
  show ?thesis
  proof (cases "wait_while_empty b h")
    case None
    with Some assms show ?thesis by (simp add: sbuffer_remove_def)
  next
    case (Some h1)
    then have "h1 = h" by (simp add: wait_returns_nonempty)
    with Some \<open>buffer = Some b\<close> assms show ?thesis
      by (auto simp: sbuffer_remove_def Let_def split: option.splits if_splits)
  qed
qed

theorem remove_failure_keeps_data_witness:
  "sbuffer_remove (Some 0) rec1 store_end = Returned (SBUFFER_NO_DATA, rec1, store_end) \<and>
   SBUFFER_NO_DATA \<noteq> SBUFFER_SUCCESS \<and>
   sbuffer_remove None rec1 store_end = Returned (SBUFFER_FAILURE, rec1, store_end) \<and>
   SBUFFER_FAILURE \<noteq> SBUFFER_SUCCESS"
proof -
  have a: "sbuffer_remove (Some 0) rec1 store_end = Returned (SBUFFER_NO_DATA, rec1, store_end)"
    by (rule remove_sentinel [where q = "\<lparr>head = Some 1, tail = Some 2\<rparr>" and p = 1
          and n = "\<lparr>next_ptr = Some 2, data_fld = end_signal\<rparr>"])
       (simp_all add: store_end_def end_signal_def)
  have b: "sbuffer_remove None rec1 store_end = Returned (SBUFFER_FAILURE, rec1, store_end)"
    by (simp add: sbuffer_remove_def)
  from remove_failure_keeps_data [OF a] remove_failure_keeps_data [OF b] a b
  show ?thesis by simp
qed

section \<open>Failures of \<open>sbuffer_insert\<close>\<close>

text \<open>
  Claim C4 says that the two failures of \<open>sbuffer_insert\<close> carry distinct signals.
  In the code both return \<^verbatim>\<open>SBUFFER_FAILURE\<close>: a call with the \<^verbatim>\<open>NULL\<close> handle and a call
  whose \<^verbatim>\<open>malloc\<close> fails return the same value.
\<close>

theorem insert_failures_same_code:
  "sbuffer_insert None rec1 (Some 1) store0 = Returned (SBUFFER_FAILURE, store0) \<and>
   sbuffer_insert (Some 0) rec1 None store0 = Returned (SBUFFER_FAILURE, store0) \<and>
   sbuffer_insert None rec1 (Some 1) store0 = sbuffer_insert (Some 0) rec1 None store0"
  by (simp add: sbuffer_insert_def)

text \<open>
  Claim C4, amended. On a well-formed buffer an insert whose \<^verbatim>\<open>malloc\<close> returns a fresh
  address succeeds and appends the record at the tail. The insert fails when \<^verbatim>\<open>malloc\<close>
  returns \<^verbatim>\<open>NULL\<close> and when the handle is \<^verbatim>\<open>NULL\<close>; both failures return
  \<^verbatim>\<open>SBUFFER_FAILURE\<close> and leave the store as it was.
\<close>

theorem insert_succeeds_or_fails:
  assumes "queue_at h b cs" and "nodes h a = None"
  shows "(\<exists>h'. sbuffer_insert (Some b) d (Some a) h = Returned (SBUFFER_SUCCESS, h') \<and>
               queue_at h' b (cs @ [(a, d)])) \<and>
         sbuffer_insert (Some b) d None h = Returned (SBUFFER_FAILURE, h) \<and>
         sbuffer_insert None d m h = Returned (SBUFFER_FAILURE, h)"
proof -
  from insert_queue [OF assms, of d]
  have "\<exists>h'. sbuffer_insert (Some b) d (Some a) h = Returned (SBUFFER_SUCCESS, h') \<and>
               queue_at h' b (cs @ [(a, d)])"
    by blast
  moreover have "sbuffer_insert (Some b) d None h = Returned (SBUFFER_FAILURE, h)"
    by (simp add: sbuffer_insert_def)
  moreover have "sbuffer_insert None d m h = Returned (SBUFFER_FAILURE, h)"
    by (simp add: sbuffer_insert_def)
  ultimately show ?thesis by blast
qed

theorem insert_succeeds_or_fails_witness:
  "queue_at store0 0 [] \<and> nodes store0 1 = None \<and>
   sbuffer_insert (Some 0) rec1 (Some 1) store0 = Returned (SBUFFER_SUCCESS, store_one) \<and>
   queue_at store_one 0 [(1, rec1)] \<and>
   sbuffer_insert (Some 0) rec1 None store0 = Returned (SBUFFER_FAILURE, store0) \<and>
   sbuffer_insert None rec1 (Some 1) store0 = Returned (SBUFFER_FAILURE, store0)"
proof -
  have q: "queue_at store0 0 []"
    by (simp add: queue_at_def store0_def)
  have fresh: "nodes store0 1 = None"
    by (simp add: store0_def)
  have ins: "sbuffer_insert (Some 0) rec1 (Some 1) store0 = Returned (SBUFFER_SUCCESS, store_one)"
    by (simp add: sbuffer_insert_def store0_def store_one_def)
  from insert_succeeds_or_fails [OF q fresh, of rec1 "Some 1"] q fresh ins show ?thesis
    by simp
qed

section \<open>The producer\<close>

lemma enqueued_append: "enqueued (xs @ ys) = enqueued xs @ enqueued ys"
  by (induction xs rule: enqueued.induct) simp_all

lemma insert_calls_enqueued:
  assumes "queue_at h b cs" and "distinct (map fst (enqueued xs))"
    and "\<forall>a\<in>fst ` set (enqueued xs). nodes h a = None"
  shows "\<exists>h'. snd (insert_calls (Some b) xs h) = Returned h' \<and>
              queue_at h' b (cs @ enqueued xs) \<and>
              (\<forall>x. x \<notin> fst ` set (enqueued xs) \<longrightarrow> (nodes h' x = None \<longleftrightarrow> nodes h x = None))"
  using assms
proof (induction xs arbitrary: cs h rule: enqueued.induct)
  case 1
  then show ?case by simp
next
  case (2 r xs)
  from "2.IH" [OF "2.prems"(1)] "2.prems"(2,3) show ?case
    by (simp add: insert_null_malloc case_prod_beta)
next
  case (3 r a xs)
  from "3.prems" have fresh: "nodes h a = None" by simp
  from insert_queue [OF "3.prems"(1) fresh, of r] obtain h1 where
    h1: "sbuffer_insert (Some b) r (Some a) h = Returned (SBUFFER_SUCCESS, h1)"
      "queue_at h1 b (cs @ [(a, r)])"
      "\<forall>x. x \<noteq> a \<longrightarrow> (nodes h1 x = None \<longleftrightarrow> nodes h x = None)"
    by blast
  from "3.prems"(2) have d: "distinct (map fst (enqueued xs))" and na: "a \<notin> fst ` set (enqueued xs)"
    by simp_all
  have f: "\<forall>x\<in>fst ` set (enqueued xs). nodes h1 x = None"
  proof
    fix x assume x: "x \<in> fst ` set (enqueued xs)"
    with na have "x \<noteq> a" by metis
    moreover from x "3.prems"(3) have "nodes h x = None" by auto
    ultimately show "nodes h1 x = None" using h1(3) by simp
  qed
  from "3.IH" [OF h1(2) d f] obtain h' where
    h': "snd (insert_calls (Some b) xs h1) = Returned h'"
      "queue_at h' b ((cs @ [(a, r)]) @ enqueued xs)"
      "\<forall>x. x \<notin> fst ` set (enqueued xs) \<longrightarrow> (nodes h' x = None \<longleftrightarrow> nodes h1 x = None)"
    by blast
  from h'(3) h1(3)
  have "\<forall>x. x \<notin> fst ` set (enqueued ((r, Some a) # xs)) \<longrightarrow>
           (nodes h' x = None \<longleftrightarrow> nodes h x = None)"
    by simp
  with h1(1) h'(1,2) show ?case
    by (simp add: case_prod_beta)
qed

lemma upt_shift: "[k..<k + Suc n] = k # [Suc k..<Suc k + n]"
  by (subst upt_conv_Cons) simp_all

lemma producer_read_calls:
  "producer_read buffer input malloc k h =
     (case snd (insert_calls buffer (zip input (map malloc [k..<k + length input])) h) of
        Blocked \<Rightarrow> Blocked
      | Fault \<Rightarrow> Fault
      | Returned h' \<Rightarrow>
          producer_read buffer [] malloc (k + length input) h')"
proof (induction input arbitrary: k h)
  case Nil
  then show ?case by simp
next
  case (Cons r input)
  have "[k..<k + length (r # input)] = k # [Suc k..<Suc k + length input]"
    using upt_shift [of k "length input"] by simp
  then show ?case
    by (simp add: Cons.IH case_prod_beta split: outcome.splits)
qed


lemma producer_signal_calls:
  "producer_signal buffer i malloc k h =
     snd (insert_calls buffer (zip (replicate i end_signal) (map malloc [k..<k + i])) h)"
proof (induction i arbitrary: k h)
  case 0
  then show ?case by simp
next
  case (Suc i)
  have e: "zip (replicate (Suc i) end_signal) (map malloc [k..<k + Suc i]) =
          (end_signal, malloc k) # zip (replicate i end_signal) (map malloc [Suc k..<Suc k + i])"
    by (simp only: upt_shift replicate_Suc list.map zip_Cons_Cons)
  show ?case
    unfolding e
    by (cases "sbuffer_insert buffer end_signal (malloc k) h")
       (simp_all add: Suc.IH case_prod_beta del: upt_Suc)
qed

lemma insert_calls_append:
  "snd (insert_calls buffer (xs @ ys) h) =
     (case snd (insert_calls buffer xs h) of
        Blocked \<Rightarrow> Blocked
      | Fault \<Rightarrow> Fault
      | Returned h' \<Rightarrow> snd (insert_calls buffer ys h'))"
  by (induction xs arbitrary: h) (simp_all add: case_prod_beta split: outcome.splits)

lemma producer_thread_calls:
  "producer_thread buffer (Some input) malloc h =
     snd (insert_calls buffer
            (zip (input @ replicate (NUM_THREADS - 1) end_signal)
                 (map malloc [0..<length input + (NUM_THREADS - 1)])) h)"
proof -
  let ?n = "length input" and ?t = "NUM_THREADS - 1"
  have "[0..<?n + ?t] = [0..<?n] @ [?n..<?n + ?t]"
    by (rule upt_add_eq_append) simp
  then have "zip (input @ replicate ?t end_signal) (map malloc [0..<?n + ?t]) =
      zip input (map malloc [0..<?n]) @ zip (replicate ?t end_signal) (map malloc [?n..<?n + ?t])"
    by simp
  then show ?thesis
    using producer_read_calls [of buffer input malloc 0 h]
    by (simp add: producer_thread_def insert_calls_append producer_signal_calls
          split: outcome.splits)
qed


text \<open>
  Claim C5 says that every run of the producer that exhausts its input enqueues two
  sentinels. The producer drops the status of these inserts: with room for one node
  only, it reads the one record of its input, inserts it, fails to insert either
  sentinel and terminates with the record alone in the queue.
\<close>

theorem producer_without_memory:
  "producer_thread (Some 0) (Some [rec1]) one_node store0 = Returned store_one \<and>
   queue_at store_one 0 [(1, rec1)]"
  by (simp add: producer_thread_def one_node_def NUM_THREADS_def sbuffer_insert_def
        store0_def store_one_def queue_at_def end_signal_def numeral_2_eq_2)

text \<open>
  Claim C5, amended. When the \<^verbatim>\<open>malloc\<close>s of the two sentinel inserts succeed, the
  producer terminates, and the queue then holds what it held before, followed by the
  records of the input in order (those whose own \<^verbatim>\<open>malloc\<close> succeeded: the others are
  dropped), followed by exactly \<^verbatim>\<open>NUM_THREADS - 1\<close> = 2 sentinels, one for each consumer.
  \<^verbatim>\<open>malloc\<close> hands out addresses that are not allocated, each once.
\<close>

theorem producer_enqueues_sentinels:
  assumes "queue_at h b cs"
    and "malloc (length input) = Some a1" and "malloc (Suc (length input)) = Some a2"
    and "distinct (map fst (enqueued (zip input (map malloc [0..<length input]))) @ [a1, a2])"
    and "\<forall>a\<in>set (map fst (enqueued (zip input (map malloc [0..<length input]))) @ [a1, a2]).
           nodes h a = None"
  shows "NUM_THREADS - 1 = 2 \<and>
         (\<exists>h'. producer_thread (Some b) (Some input) malloc h = Returned h' \<and>
               queue_at h' b (cs @ enqueued (zip input (map malloc [0..<length input])) @
                                [(a1, end_signal), (a2, end_signal)]))"
proof -
  let ?n = "length input"
  let ?data = "zip input (map malloc [0..<?n])"
  let ?all = "zip (input @ replicate (NUM_THREADS - 1) end_signal)
                (map malloc [0..<?n + (NUM_THREADS - 1)])"
  have two: "NUM_THREADS - 1 = 2" by (simp add: NUM_THREADS_def)
  have "[0..<?n + 2] = [0..<?n] @ [?n, Suc ?n]"
    by (simp add: upt_add_eq_append numeral_2_eq_2)
  moreover have "replicate 2 end_signal = [end_signal, end_signal :: 'a sensor_data]"
    by (simp add: numeral_2_eq_2)
  ultimately have "zip (input @ replicate 2 end_signal) (map malloc [0..<?n + 2]) =
      ?data @ [(end_signal, malloc ?n), (end_signal, malloc (Suc ?n))]"
    by simp
  then have "?all = ?data @ [(end_signal, malloc ?n), (end_signal, malloc (Suc ?n))]"
    by (simp only: two)
  with assms(2,3) have enq: "enqueued ?all = enqueued ?data @ [(a1, end_signal), (a2, end_signal)]"
    by (simp add: enqueued_append)
  have d: "distinct (map fst (enqueued ?all))"
    unfolding enq using assms(4) by simp
  have f: "\<forall>a\<in>fst ` set (enqueued ?all). nodes h a = None"
    unfolding enq using assms(5) by auto
  from insert_calls_enqueued [OF assms(1) d f] obtain h' where
    "snd (insert_calls (Some b) ?all h) = Returned h'" "queue_at h' b (cs @ enqueued ?all)"
    by blast
  then have "producer_thread (Some b) (Some input) malloc h = Returned h' \<and>
      queue_at h' b (cs @ enqueued ?data @ [(a1, end_signal), (a2, end_signal)])"
    by (simp only: producer_thread_calls enq)
  with two show ?thesis by blast
qed

theorem producer_enqueues_sentinels_witness:
  "queue_at store0 0 [] \<and> skip_first 2 = Some 2 \<and> skip_first 3 = Some 3 \<and>
   (\<exists>h'. producer_thread (Some 0) (Some [rec1, rec2]) skip_first store0 = Returned h' \<and>
         queue_at h' 0 [(1, rec2), (2, end_signal), (3, end_signal)])"
proof -
  have q: "queue_at store0 0 []"
    by (simp add: queue_at_def store0_def)
  have m1: "skip_first (length [rec1, rec2]) = Some 2"
    and m2: "skip_first (Suc (length [rec1, rec2])) = Some 3"
    by (simp_all add: skip_first_def)
  have enq: "enqueued (zip [rec1, rec2] (map skip_first [0..<length [rec1, rec2]])) = [(1, rec2)]"
    by (simp add: skip_first_def upt_conv_Cons)
  have dist: "distinct (map fst (enqueued (zip [rec1, rec2]
      (map skip_first [0..<length [rec1, rec2]]))) @ [2, 3])"
    unfolding enq by simp
  have fresh: "\<forall>a\<in>set (map fst (enqueued (zip [rec1, rec2]
      (map skip_first [0..<length [rec1, rec2]]))) @ [2, 3]). nodes store0 a = None"
    unfolding enq by (simp add: store0_def)
  have s: "skip_first 2 = Some 2" "skip_first 3 = Some 3"
    by (simp_all add: skip_first_def)
  from producer_enqueues_sentinels [OF q m1 m2 dist fresh, unfolded enq]
  have "\<exists>h'. producer_thread (Some 0) (Some [rec1, rec2]) skip_first store0 = Returned h' \<and>
         queue_at h' 0 [(1, rec2), (2, end_signal), (3, end_signal)]"
    by simp
  with q s show ?thesis by blast
qed

section \<open>Head and tail\<close>

lemma init_queue:
  assumes "sbuffer_init m mutex_rc cond_rc h0 = (SBUFFER_SUCCESS, p, h)"
  shows "\<exists>b. m = Some b \<and> p = Some b \<and> bufs h b = Some \<lparr>head = None, tail = None\<rparr> \<and>
             queue_at h b []"
  using assms
  by (auto simp: sbuffer_init_def queue_at_def Let_def split: option.splits if_splits)

lemma insert_returns_queue:
  assumes "queue_at h b cs" and "\<forall>a. m = Some a \<longrightarrow> nodes h a = None"
    and "sbuffer_insert (Some b) d m h = Returned (st, h')"
  shows "\<exists>cs'. queue_at h' b cs'"
proof (cases m)
  case None
  with assms(1,3) show ?thesis by (auto simp: sbuffer_insert_def)
next
  case (Some a)
  with assms(2) have "nodes h a = None" by simp
  from insert_queue [OF assms(1) this, of d] assms(3) Some show ?thesis by auto
qed

lemma remove_returns_queue:
  assumes "queue_at h b cs" and "sbuffer_remove (Some b) d h = Returned (st, d', h')"
  shows "\<exists>cs'. queue_at h' b cs'"
proof (cases cs)
  case Nil
  with assms show ?thesis by (simp add: remove_blocks)
next
  case (Cons c cs')
  obtain p r where c: "c = (p, r)" by (cases c)
  show ?thesis
  proof (cases "id_fld r = 0")
    case True
    from assms(1) Cons c obtain q n where "bufs h b = Some q" "head q = Some p"
      "nodes h p = Some n" "data_fld n = r"
      by (auto simp: queue_at_def split: option.splits)
    with True have "sbuffer_remove (Some b) d h = Returned (SBUFFER_NO_DATA, d, h)"
      by (simp add: remove_sentinel)
    with assms show ?thesis by auto
  next
    case False
    from assms(1) Cons c have "queue_at h b ((p, r) # cs')" by simp
    from remove_queue [OF this False, of d] assms(2) show ?thesis by auto
  qed
qed

lemma reachable_queue: "reachable b h \<Longrightarrow> \<exists>cs. queue_at h b cs"
proof (induction rule: reachable.induct)
  case (init mutex_rc cond_rc h0 p h)
  from init_queue [OF this] show ?case by auto
next
  case (ins h m d st h')
  then show ?case by (blast intro: insert_returns_queue)
next
  case (rem h d st d' h')
  then show ?case by (blast intro: remove_returns_queue)
qed

lemma insert_into_empty:
  assumes "bufs h b = Some q" and "tail q = None"
    and "sbuffer_insert (Some b) d (Some a) h = Returned (st, h')"
  shows "st = SBUFFER_SUCCESS \<and> (\<exists>q'. bufs h' b = Some q' \<and> head q' = Some a \<and> tail q' = Some a)"
  using assms by (auto simp: sbuffer_insert_def Let_def)

lemma remove_last:
  assumes "bufs h b = Some q" and "head q = tail q"
    and "sbuffer_remove (Some b) d h = Returned (SBUFFER_SUCCESS, d', h')"
  shows "\<exists>q'. bufs h' b = Some q' \<and> head q' = None \<and> tail q' = None"
proof (cases "wait_while_empty b h")
  case None
  with assms(3) show ?thesis by (simp add: sbuffer_remove_def)
next
  case (Some h1)
  then have "h1 = h" by (simp add: wait_returns_nonempty)
  with Some assms show ?thesis
    by (auto simp: sbuffer_remove_def Let_def split: option.splits if_splits)
qed

text \<open>
  Claim C10. In every store that \<open>sbuffer_init\<close>, \<open>sbuffer_insert\<close> and
  \<open>sbuffer_remove\<close> can produce, \<^verbatim>\<open>head\<close> is \<^verbatim>\<open>NULL\<close> exactly when \<^verbatim>\<open>tail\<close> is \<^verbatim>\<open>NULL\<close>; as
  the reachable stores are closed under the three operations, each of them preserves
  this. An insert into the empty queue sets both pointers to the new node, a remove
  of the last node (\<^verbatim>\<open>head == tail\<close>) sets both to \<^verbatim>\<open>NULL\<close>, and a successful
  \<open>sbuffer_init\<close> leaves both \<^verbatim>\<open>NULL\<close>.
\<close>

theorem head_null_iff_tail_null:
  assumes "reachable b h"
  shows "\<exists>q. bufs h b = Some q \<and> (head q = None \<longleftrightarrow> tail q = None) \<and>
           (\<forall>d a st h'. head q = None \<and>
               sbuffer_insert (Some b) d (Some a) h = Returned (st, h') \<longrightarrow>
               (\<exists>q'. bufs h' b = Some q' \<and> head q' = Some a \<and> tail q' = Some a)) \<and>
           (\<forall>d d' h'. head q = tail q \<and>
               sbuffer_remove (Some b) d h = Returned (SBUFFER_SUCCESS, d', h') \<longrightarrow>
               (\<exists>q'. bufs h' b = Some q' \<and> head q' = None \<and> tail q' = None)) \<and>
           (\<forall>m mutex_rc cond_rc h0 p h1.
               sbuffer_init m mutex_rc cond_rc (h0 :: 'a heap) = (SBUFFER_SUCCESS, p, h1) \<longrightarrow>
               (\<exists>b'. p = Some b' \<and> bufs h1 b' = Some \<lparr>head = None, tail = None\<rparr>))"
proof -
  from reachable_queue [OF assms] obtain cs where cs: "queue_at h b cs" ..
  then obtain q where q: "bufs h b = Some q"
    by (rule queue_atD)
  from queue_at_head_tail [OF cs q] have inv: "head q = None \<longleftrightarrow> tail q = None"
    by simp
  have ins: "\<exists>q'. bufs h' b = Some q' \<and> head q' = Some a \<and> tail q' = Some a"
    if "head q = None \<and> sbuffer_insert (Some b) d (Some a) h = Returned (st, h')"
    for d a st h'
    using insert_into_empty [OF q, of d a st h'] inv that by simp
  have rem: "\<exists>q'. bufs h' b = Some q' \<and> head q' = None \<and> tail q' = None"
    if "head q = tail q \<and> sbuffer_remove (Some b) d h = Returned (SBUFFER_SUCCESS, d', h')"
    for d d' h'
    using remove_last [OF q, of d d' h'] that by simp
  from ins have A: "\<forall>d a st h'. head q = None \<and>
               sbuffer_insert (Some b) d (Some a) h = Returned (st, h') \<longrightarrow>
               (\<exists>q'. bufs h' b = Some q' \<and> head q' = Some a \<and> tail q' = Some a)"
    by (intro allI impI)
  from rem have B: "\<forall>d d' h'. head q = tail q \<and>
               sbuffer_remove (Some b) d h = Returned (SBUFFER_SUCCESS, d', h') \<longrightarrow>
               (\<exists>q'. bufs h' b = Some q' \<and> head q' = None \<and> tail q' = None)"
    by (intro allI impI)
  have C: "\<forall>m mutex_rc cond_rc h0 p h1.
               sbuffer_init m mutex_rc cond_rc (h0 :: 'a heap) = (SBUFFER_SUCCESS, p, h1) \<longrightarrow>
               (\<exists>b'. p = Some b' \<and> bufs h1 b' = Some \<lparr>head = None, tail = None\<rparr>)"
    by (blast dest: init_queue)
  from q inv A B C show ?thesis
    by (intro exI [of _ q] conjI)
qed

theorem head_null_iff_tail_null_witness:
  "sbuffer_init (Some 0) 0 0 store_none = (SBUFFER_SUCCESS, Some 0, store0) \<and>
   reachable 0 store0 \<and> reachable 0 store_one \<and>
   bufs store0 0 = Some \<lparr>head = None, tail = None\<rparr> \<and>
   bufs store_one 0 = Some \<lparr>head = Some 1, tail = Some 1\<rparr> \<and>
   sbuffer_insert (Some 0) rec1 (Some 1) store0 = Returned (SBUFFER_SUCCESS, store_one) \<and>
   sbuffer_remove (Some 0) rec2 store_one = Returned (SBUFFER_SUCCESS, rec1, store0)"
proof -
  have i: "sbuffer_init (Some 0) 0 0 store_none = (SBUFFER_SUCCESS, Some 0, store0)"
    by (simp add: sbuffer_init_def store_none_def store0_def)
  then have r0: "reachable 0 store0" by (rule reachable.init)
  have ins: "sbuffer_insert (Some 0) rec1 (Some 1) store0 = Returned (SBUFFER_SUCCESS, store_one)"
    by (simp add: sbuffer_insert_def store0_def store_one_def)
  have "\<forall>a. Some (1::nat) = Some a \<longrightarrow> nodes store0 a = None"
    by (simp add: store0_def)
  with r0 have r1: "reachable 0 store_one" using ins by (rule reachable.ins)
  have w: "wait_while_empty 0 store_one = Some store_one"
    by (rule wait_nonempty [where q = "\<lparr>head = Some 1, tail = Some 1\<rparr>" and p = 1])
       (simp_all add: store_one_def)
  have rem: "sbuffer_remove (Some 0) rec2 store_one = Returned (SBUFFER_SUCCESS, rec1, store0)"
    by (simp add: sbuffer_remove_def w) (simp add: store_one_def store0_def rec1_def)
  from head_null_iff_tail_null [OF r0] head_null_iff_tail_null [OF r1] i r0 r1 ins rem
  show ?thesis
    by (auto simp: store0_def store_one_def)
qed


section \<open>The consumer at the end of the stream\<close>

lemma consumer_stale:
  assumes "bufs h b = Some q" and "head q = Some p" and "nodes h p = Some n"
    and "id_fld (data_fld n) = 0" and "id_fld d \<noteq> 0"
  shows "consumer_thread fuel io_ok (Some b) (Some lines) d k h =
           Runs (Some (lines @ replicate fuel d)) h"
proof (induction fuel arbitrary: lines k)
  case 0
  then show ?case by simp
next
  case (Suc fuel)
  have "sbuffer_remove (Some b) d h = Returned (SBUFFER_NO_DATA, d, h)"
    using assms(1-4) by (rule remove_sentinel)
  moreover have "log_sensor_data (Some lines) (id_fld d) (value_fld d) (ts_fld d)
          (fst (io_ok k)) (snd (io_ok k)) = (0, Some (lines @ [d]))"
    by (simp add: log_sensor_data_def io_ok_def)
  ultimately show ?case
    using Suc.IH [of "lines @ [d]" "Suc k"] assms(5)
    by (simp add: replicate_app_Cons_same)
qed

lemma consumer_stale_any_io:
  assumes "bufs h b = Some q" and "head q = Some p" and "nodes h p = Some n"
    and "id_fld (data_fld n) = 0" and "id_fld d \<noteq> 0"
  shows "\<exists>f. consumer_thread fuel io (Some b) output_csv d k h = Runs f h"
proof (induction fuel arbitrary: output_csv k)
  case 0
  then show ?case by simp
next
  case (Suc fuel)
  have r: "sbuffer_remove (Some b) d h = Returned (SBUFFER_NO_DATA, d, h)"
    using assms(1-4) by (rule remove_sentinel)
  obtain rc f where l: "log_sensor_data output_csv (id_fld d) (value_fld d) (ts_fld d)
          (fst (io k)) (snd (io k)) = (rc, f)"
    by (cases "log_sensor_data output_csv (id_fld d) (value_fld d) (ts_fld d)
          (fst (io k)) (snd (io k))")
  from Suc.IH [of f "Suc k"] r l assms(5) show ?case by simp
qed

lemma store_bug_remove:
  "sbuffer_remove (Some 0) d store_bug = Returned (SBUFFER_SUCCESS, rec1, store_stuck)"
proof -
  have "wait_while_empty 0 store_bug = Some store_bug"
    by (rule wait_nonempty [where q = "\<lparr>head = Some 1, tail = Some 3\<rparr>" and p = 1])
       (simp_all add: store_bug_def)
  then show ?thesis
    by (simp add: sbuffer_remove_def) (simp add: store_bug_def store_stuck_def rec1_def)
qed

text \<open>
  Claim C2 says that the consumer leaves its loop when \<open>sbuffer_remove\<close> reports
  \<^verbatim>\<open>SBUFFER_NO_DATA\<close>. The loop tests \<^verbatim>\<open>retrieved_data.id == 0\<close> instead of the status,
  and \<open>sbuffer_remove\<close> does not write \<^verbatim>\<open>retrieved_data\<close> on that path. Take the run
  of the program on an input file that holds the one record \<open>rec1\<close>: the producer
  leaves the queue \<open>rec1\<close>, sentinel, sentinel. The first iteration of a consumer logs
  \<open>rec1\<close>; every later one gets
  \<^verbatim>\<open>SBUFFER_NO_DATA\<close>, finds the id of \<open>rec1\<close> in \<^verbatim>\<open>retrieved_data\<close> and logs \<open>rec1\<close> again.
  Whatever the fuel and whatever \<^verbatim>\<open>retrieved_data\<close> held at the start, the loop is still
  running when the fuel is used up, with one more line of \<open>rec1\<close> per iteration.
\<close>

theorem consumer_never_exits:
  "sbuffer_init (Some 0) 0 0 store_none = (SBUFFER_SUCCESS, Some 0, store0) \<and>
   producer_thread (Some 0) (Some [rec1]) bump_alloc store0 = Returned store_bug \<and>
   (\<forall>fuel d. consumer_thread (Suc fuel) io_ok (Some 0) (Some []) d 0 store_bug =
             Runs (Some (replicate (Suc fuel) rec1)) store_stuck)"
proof (intro conjI allI)
  show "sbuffer_init (Some 0) 0 0 store_none = (SBUFFER_SUCCESS, Some 0, store0)"
    by (simp add: sbuffer_init_def store_none_def store0_def)
  show "producer_thread (Some 0) (Some [rec1]) bump_alloc store0 = Returned store_bug"
    by (simp add: producer_thread_def bump_alloc_def NUM_THREADS_def sbuffer_insert_def
          store0_def store_bug_def numeral_2_eq_2 numeral_3_eq_3 fun_upd_twist)
next
  fix fuel :: nat and d :: "int sensor_data"
  have "consumer_thread fuel io_ok (Some 0) (Some [rec1]) rec1 (Suc 0) store_stuck =
          Runs (Some ([rec1] @ replicate fuel rec1)) store_stuck"
    by (rule consumer_stale [where q = "\<lparr>head = Some 2, tail = Some 3\<rparr>" and p = 2
          and n = "\<lparr>next_ptr = Some 3, data_fld = end_signal\<rparr>"])
       (simp_all add: store_stuck_def end_signal_def rec1_def)
  moreover have "log_sensor_data (Some []) (id_fld rec1) (value_fld rec1) (ts_fld rec1)
          (fst (io_ok 0)) (snd (io_ok 0)) = (0, Some [rec1])"
    by (simp add: log_sensor_data_def io_ok_def rec1_def)
  moreover have "id_fld rec1 \<noteq> 0" by (simp add: rec1_def)
  ultimately show "consumer_thread (Suc fuel) io_ok (Some 0) (Some []) d 0 store_bug =
             Runs (Some (replicate (Suc fuel) rec1)) store_stuck"
    by (simp add: store_bug_remove)
qed

section \<open>The sink\<close>

lemma digit_in: "n < 10 \<Longrightarrow> digit n \<in> set ''0123456789''"
  unfolding digit_def by (rule nth_mem) simp

lemma dec_nat_digits: "set (dec_nat n) \<subseteq> set ''0123456789''"
proof (induction n rule: dec_nat.induct)
  case (1 n)
  show ?case
  proof (cases "n < 10")
    case True
    with digit_in [of n] show ?thesis by (subst dec_nat.simps) simp
  next
    case False
    have "n mod 10 < 10" by simp
    with digit_in [of "n mod 10"] "1.IH" [OF False] False show ?thesis
      by (subst dec_nat.simps) simp
  qed
qed

lemma dec_no_newline: "CHR 0x0A \<notin> set (dec i)"
  using dec_nat_digits [of "nat i"] dec_nat_digits [of "nat (- i)"]
  by (auto simp: dec_def)

lemma csv_line_one_newline:
  assumes "CHR 0x0A \<notin> set (fmt2f (value_fld d))"
  shows "count_list (csv_line fmt2f d) (CHR 0x0A) = 1"
  using assms dec_no_newline [of "id_fld d"] dec_no_newline [of "ts_fld d"]
  by (simp add: csv_line_def count_list_0_iff)

text \<open>
  Claim C7. \<open>log_sensor_data\<close> returns 0 exactly when the file pointer is not \<^verbatim>\<open>NULL\<close>,
  \<^verbatim>\<open>fprintf\<close> did not fail and \<^verbatim>\<open>fflush\<close>, called right after it, returned 0; in every
  other case it returns -1. With a \<^verbatim>\<open>NULL\<close> file pointer or a failed write nothing is
  added to the file. A write that does not fail adds exactly one line for the record:
  the text of the file grows by the id in decimal, a comma, the value as \<^verbatim>\<open>%.2f\<close> prints
  it, a comma, the timestamp in decimal and a newline, which is the only newline of
  the line when the rendering of the value has none.
\<close>

theorem log_sensor_data_line:
  "(fst (log_sensor_data output_file i v t wr fl) = 0 \<longleftrightarrow>
      output_file \<noteq> None \<and> 0 \<le> wr \<and> fl = 0) \<and>
   (fst (log_sensor_data output_file i v t wr fl) \<noteq> 0 \<longrightarrow>
      fst (log_sensor_data output_file i v t wr fl) = - 1) \<and>
   (output_file = None \<or> wr < 0 \<longrightarrow>
      snd (log_sensor_data output_file i v t wr fl) = output_file) \<and>
   (\<forall>lines. output_file = Some lines \<and> 0 \<le> wr \<longrightarrow>
      snd (log_sensor_data output_file i v t wr fl) =
        Some (lines @ [\<lparr>id_fld = i, value_fld = v, ts_fld = t\<rparr>]) \<and>
      file_text fmt2f (lines @ [\<lparr>id_fld = i, value_fld = v, ts_fld = t\<rparr>]) =
        file_text fmt2f lines @ dec i @ '','' @ fmt2f v @ '','' @ dec t @ [CHR 0x0A] \<and>
      (CHR 0x0A \<notin> set (fmt2f v) \<longrightarrow>
         count_list (dec i @ '','' @ fmt2f v @ '','' @ dec t @ [CHR 0x0A]) (CHR 0x0A) = 1))"
proof -
  have nl: "count_list (dec i @ '','' @ fmt2f v @ '','' @ dec t @ [CHR 0x0A]) (CHR 0x0A) = 1"
    if "CHR 0x0A \<notin> set (fmt2f v)"
    using csv_line_one_newline [of fmt2f "\<lparr>id_fld = i, value_fld = v, ts_fld = t\<rparr>"] that
    by (simp add: csv_line_def)
  have text_eq: "file_text fmt2f (ls @ [\<lparr>id_fld = i, value_fld = v, ts_fld = t\<rparr>]) =
        file_text fmt2f ls @ dec i @ '','' @ fmt2f v @ '','' @ dec t @ [CHR 0x0A]" for ls
    by (simp add: file_text_def csv_line_def)
  show ?thesis
    using nl text_eq
    by (cases output_file) (simp_all add: log_sensor_data_def Let_def)
qed

theorem log_sensor_data_line_witness:
  "log_sensor_data (Some []) 1 10 100 12 0 = (0, Some [rec1]) \<and>
   file_text two_decimals [rec1] = ''1,10.00,100'' @ [CHR 0x0A] \<and>
   count_list (''1,10.00,100'' @ [CHR 0x0A]) (CHR 0x0A) = 1 \<and>
   log_sensor_data (Some [rec1]) 2 20 200 (- 1) 0 = (- 1, Some [rec1]) \<and>
   log_sensor_data (Some [rec1]) 2 20 200 12 (- 1) = (- 1, Some [rec1, rec2]) \<and>
   log_sensor_data None 2 20 200 12 0 = (- 1, None)"
proof -
  have d: "dec 1 = ''1''" "dec 10 = ''10''" "dec 100 = ''100''"
    by (simp_all add: dec_def dec_nat.simps digit_def)
  have text_eq: "file_text two_decimals [rec1] = ''1,10.00,100'' @ [CHR 0x0A]"
    by (simp add: file_text_def csv_line_def two_decimals_def rec1_def d)
  have nl: "CHR 0x0A \<notin> set (two_decimals 10)"
    by (simp add: two_decimals_def d)
  note line = log_sensor_data_line [of "Some []" 1 10 100 12 0 two_decimals]
  from line have rc: "fst (log_sensor_data (Some []) 1 (10 :: int) 100 12 0) = 0"
    by simp
  from line have appended: "snd (log_sensor_data (Some []) 1 10 100 12 0) = Some [rec1]"
    by (simp add: rec1_def)
  from line nl have one: "count_list (''1,10.00,100'' @ [CHR 0x0A]) (CHR 0x0A) = 1"
    by (simp add: d two_decimals_def)
  from rc appended have ok: "log_sensor_data (Some []) 1 10 100 12 0 = (0, Some [rec1])"
    by (simp add: prod_eq_iff)
  have "log_sensor_data (Some [rec1]) 2 20 200 (- 1) 0 = (- 1, Some [rec1])"
    and "log_sensor_data (Some [rec1]) 2 20 200 12 (- 1) = (- 1, Some [rec1, rec2])"
    and "log_sensor_data None 2 20 200 12 0 = (- 1, None)"
    by (simp_all add: log_sensor_data_def rec2_def)
  with ok text_eq one show ?thesis by (intro conjI)
qed


end
